theory Spec2Isabelle
  imports Main
begin

section \<open>Three-way text merge: edenscm/simplemerge.py\<close>

text \<open>
  A shallow embedding of the merge engine of \<^verbatim>\<open>simplemerge.py\<close>: \<^verbatim>\<open>intersect\<close>,
  \<^verbatim>\<open>compare_range\<close>, \<^verbatim>\<open>trywordmerge\<close>, \<^verbatim>\<open>splitwordswithoutemptylines\<close> and the methods
  \<^verbatim>\<open>__init__\<close>, \<^verbatim>\<open>merge_lines\<close>, \<^verbatim>\<open>merge_regions\<close>, \<^verbatim>\<open>minimize\<close> and
  \<^verbatim>\<open>find_sync_regions\<close> of \<^verbatim>\<open>Merge3Text\<close>. Byte strings are \<open>string\<close>
  (lists of 8-bit characters), Python lists are HOL lists, exceptions are values of the
  type \<open>error\<close> and every function that can raise returns \<open>error + 'a\<close>.

  Offsets and lengths are natural numbers: the matcher yields non-negative offsets, and
  every difference the source computes is written over \<open>int\<close> where its sign matters
  (the source's \<^verbatim>\<open>assert x >= 0\<close> lines).
\<close>

subsection \<open>Exceptions\<close>

datatype assert_info = NoMessage | Message string | Slices "string list" "string list"

datatype error =
    AssertionError assert_info
  | IndexError
  | CantShowWordConflicts
  | RecursionError

type_synonym 'a result = "error + 'a"

definition bnd :: "'a result \<Rightarrow> ('a \<Rightarrow> 'b result) \<Rightarrow> 'b result" where
  "bnd r f = (case r of Inl e \<Rightarrow> Inl e | Inr v \<Rightarrow> f v)"

subsection \<open>Python lists\<close>

text \<open>\<^verbatim>\<open>xs[i]\<close> for \<open>i \<ge> 0\<close>: IndexError out of range.\<close>

definition getitem :: "'a list \<Rightarrow> nat \<Rightarrow> 'a result" where
  "getitem xs i = (if i < length xs then Inr (xs ! i) else Inl IndexError)"

text \<open>\<^verbatim>\<open>[xs[i] for i in idx]\<close>: the reads in order, stopping at the first IndexError.\<close>

fun getitems :: "'a list \<Rightarrow> nat list \<Rightarrow> 'a list result" where
  "getitems xs [] = Inr []"
| "getitems xs (i # idx) =
     bnd (getitem xs i) (\<lambda>x. bnd (getitems xs idx) (\<lambda>r. Inr (x # r)))"

text \<open>\<^verbatim>\<open>xs[i:j]\<close> for \<open>i, j \<ge> 0\<close>: slices are clamped and never raise.\<close>

definition pyslice :: "'a list \<Rightarrow> nat \<Rightarrow> nat \<Rightarrow> 'a list" where
  "pyslice xs i j = take (j - i) (drop i xs)"

subsection \<open>Python byte strings\<close>

text \<open>\<^verbatim>\<open>s.endswith(t)\<close>\<close>

definition endswith :: "string \<Rightarrow> string \<Rightarrow> bool" where
  "endswith s t = (length t \<le> length s \<and> drop (length s - length t) s = t)"

text \<open>
  \<^verbatim>\<open>bytes.splitlines(True)\<close>: split after each \<^verbatim>\<open>\n\<close>, \<^verbatim>\<open>\r\n\<close> or \<^verbatim>\<open>\r\<close>, the terminator kept;
  the last piece may have none. \<open>cur\<close> is the line read so far.
\<close>

fun splitlines_from :: "string \<Rightarrow> string \<Rightarrow> string list" where
  "splitlines_from cur [] = (if cur = [] then [] else [cur])"
| "splitlines_from cur (c # cs) =
     (if c = CHR 0x0A then (cur @ [c]) # splitlines_from [] cs
      else if c = CHR 0x0D then
        (case cs of
           [] \<Rightarrow> (cur @ [c]) # splitlines_from [] cs
         | d # ds \<Rightarrow> if d = CHR 0x0A then (cur @ [c, d]) # splitlines_from [] ds
                    else (cur @ [c]) # splitlines_from [] cs)
      else splitlines_from (cur @ [c]) cs)"

definition splitlines :: "string \<Rightarrow> string list" where
  "splitlines text = splitlines_from [] text"

subsection \<open>The collaborators in mdiff\<close>

text \<open>
  Modelled from the spec: \<^verbatim>\<open>mdiff.splitnewlines\<close>, whose source is not part of the
  module. Line tokenization: split after each line terminator (\<^verbatim>\<open>\n\<close>, \<^verbatim>\<open>\r\n\<close> or
  \<^verbatim>\<open>\r\<close>); the terminator stays attached to its line; the final token may lack one.
\<close>

definition splitnewlines :: "string \<Rightarrow> string list" where
  "splitnewlines text = splitlines_from [] text"

text \<open>
  Modelled from the spec: \<^verbatim>\<open>mdiff.splitwords\<close>, whose source is not part of the module.
  Words are maximal runs of whitespace or of non-whitespace, with \<^verbatim>\<open>\n\<close> as a token of
  its own.
\<close>

definition isspace :: "char \<Rightarrow> bool" where
  "isspace c = (c \<in> {CHR '' '', CHR 0x09, CHR 0x0A, CHR 0x0B, CHR 0x0C, CHR 0x0D})"

definition samerun :: "char \<Rightarrow> char \<Rightarrow> bool" where
  "samerun c d = (d \<noteq> CHR 0x0A \<and> isspace d = isspace c)"

function splitwords :: "string \<Rightarrow> string list" where
  "splitwords [] = []"
| "splitwords (c # cs) =
     (if c = CHR 0x0A then [c] # splitwords cs
      else (c # takeWhile (samerun c) cs) # splitwords (dropWhile (samerun c) cs))"
  by pat_completeness auto
termination
  by (relation "measure length") (auto simp: length_dropWhile_le less_Suc_eq_le)

text \<open>
  \<^verbatim>\<open>mdiff.get_matching_blocks\<close> is not part of the module either. The merge takes it as
  a parameter \<open>gmb\<close>: given two texts it returns triples (offset in the first, offset in
  the second, length), counted in lines of the texts.
\<close>

type_synonym block = "nat \<times> nat \<times> nat"
type_synonym matcher = "string \<Rightarrow> string \<Rightarrow> block list"

subsection \<open>intersect, compare_range\<close>

definition intersect :: "nat \<times> nat \<Rightarrow> nat \<times> nat \<Rightarrow> (nat \<times> nat) option result" where
  "intersect ra rb =
     (if \<not> fst ra \<le> snd ra then Inl (AssertionError NoMessage)
      else if \<not> fst rb \<le> snd rb then Inl (AssertionError NoMessage)
      else
        let sa = max (fst ra) (fst rb);
            sb = min (snd ra) (snd rb)
        in if sa < sb then Inr (Some (sa, sb)) else Inr None)"

text \<open>The loop of \<^verbatim>\<open>compare_range\<close> over the zipped index ranges.\<close>

fun compare_loop :: "'a list \<Rightarrow> 'a list \<Rightarrow> (nat \<times> nat) list \<Rightarrow> bool result" where
  "compare_loop a b [] = Inr True"
| "compare_loop a b ((ia, ib) # rest) =
     bnd (getitem a ia) (\<lambda>x.
     bnd (getitem b ib) (\<lambda>y.
       if x \<noteq> y then Inr False else compare_loop a b rest))"

definition compare_range ::
  "'a list \<Rightarrow> nat \<Rightarrow> nat \<Rightarrow> 'a list \<Rightarrow> nat \<Rightarrow> nat \<Rightarrow> bool result" where
  "compare_range a astart aend b bstart bend =
     (if int aend - int astart \<noteq> int bend - int bstart then Inr False
      else compare_loop a b (zip [astart..<aend] [bstart..<bend]))"

subsection \<open>Word merge modes and splitwordswithoutemptylines\<close>

datatype wordmergemode = enforced | ondemand | disabled

text \<open>
  The loop of \<^verbatim>\<open>splitwordswithoutemptylines\<close>: \<open>buf\<close> holds the words of the token under
  construction, \<open>result\<close> the finished tokens.
\<close>

fun foldwords :: "string list \<Rightarrow> string list \<Rightarrow> string list \<Rightarrow> string list" where
  "foldwords [] buf result = (if buf \<noteq> [] then result @ [concat buf] else result)"
| "foldwords (word # words) buf result =
     (if word \<noteq> [CHR 0x0A] \<and> buf \<noteq> []
      then foldwords words [word] (result @ [concat buf])
      else foldwords words (buf @ [word]) result)"

definition splitwordswithoutemptylines :: "string \<Rightarrow> string list" where
  "splitwordswithoutemptylines text = foldwords (splitwords text) [] []"

subsection \<open>Merge3Text\<close>

record Merge3Text =
  self_basetext :: string
  self_atext :: string
  self_btext :: string
  self_base :: "string list"
  self_a :: "string list"
  self_b :: "string list"
  self_wordmerge :: wordmergemode

text \<open>\<^verbatim>\<open>Merge3Text.__init__\<close>\<close>

definition Merge3Text_init ::
  "string \<Rightarrow> string \<Rightarrow> string \<Rightarrow> wordmergemode \<Rightarrow> Merge3Text" where
  "Merge3Text_init basetext atext btext wordmerge =
     (let split = (if wordmerge = enforced then splitwordswithoutemptylines
                   else splitnewlines)
      in \<lparr> self_basetext = basetext, self_atext = atext, self_btext = btext,
           self_base = split basetext, self_a = split atext, self_b = split btext,
           self_wordmerge = wordmerge \<rparr>)"

subsection \<open>find_sync_regions\<close>

type_synonym sync = "nat \<times> nat \<times> nat \<times> nat \<times> nat \<times> nat"

text \<open>\<^verbatim>\<open>word.replace(c, s)\<close> for a single byte \<open>c\<close>.\<close>

definition replace_byte :: "char \<Rightarrow> string \<Rightarrow> string \<Rightarrow> string" where
  "replace_byte c s word = concat (map (\<lambda>x. if x = c then s else [x]) word)"

definition escape :: "string \<Rightarrow> string" where
  "escape word =
     replace_byte (CHR 0x0A) [CHR 0x5C, CHR ''n'']
       (replace_byte (CHR 0x5C) [CHR 0x5C, CHR 0x5C] word) @ [CHR 0x0A]"

definition concat_words :: "string list \<Rightarrow> string" where
  "concat_words words = concat (map escape words)"

text \<open>
  The body of the \<^verbatim>\<open>if i:\<close> branch: the four arithmetic asserts, the two slice asserts,
  then the sync region to append. The interval \<open>i\<close> is the one \<^verbatim>\<open>intersect\<close> returned, so
  \<open>intbase < intend\<close> and the length \<open>intend - intbase\<close> is positive.
\<close>

definition sync_of ::
  "Merge3Text \<Rightarrow> block \<Rightarrow> block \<Rightarrow> nat \<times> nat \<Rightarrow> sync result" where
  "sync_of m ablock bblock i =
     (case (ablock, bblock, i) of ((abase, amatch, alen), (bbase, bmatch, blen), (intbase, intend)) \<Rightarrow>
        let intlen = intend - intbase in
        if \<not> intlen \<le> alen then Inl (AssertionError NoMessage)
        else if \<not> intlen \<le> blen then Inl (AssertionError NoMessage)
        else if \<not> abase \<le> intbase then Inl (AssertionError NoMessage)
        else if \<not> bbase \<le> intbase then Inl (AssertionError NoMessage)
        else
          let asub = amatch + (intbase - abase);
              bsub = bmatch + (intbase - bbase);
              aend = asub + intlen;
              bend = bsub + intlen
          in
          if pyslice (self_base m) intbase intend \<noteq> pyslice (self_a m) asub aend
          then Inl (AssertionError
                 (Slices (pyslice (self_base m) intbase intend) (pyslice (self_a m) asub aend)))
          else if pyslice (self_base m) intbase intend \<noteq> pyslice (self_b m) bsub bend
          then Inl (AssertionError NoMessage)
          else Inr (intbase, intend, asub, aend, bsub, bend))"

text \<open>
  The \<^verbatim>\<open>while ia < len_a and ib < len_b\<close> loop. The cursors \<open>ia\<close>, \<open>ib\<close> are the
  remaining suffixes of the two block lists; \<open>sl\<close> is the list built so far.
\<close>

fun sync_loop ::
  "Merge3Text \<Rightarrow> block list \<Rightarrow> block list \<Rightarrow> sync list \<Rightarrow> sync list result" where
  "sync_loop m [] bmatches sl = Inr sl"
| "sync_loop m (ablock # amatches) [] sl = Inr sl"
| "sync_loop m ((abase, amatch, alen) # amatches) ((bbase, bmatch, blen) # bmatches) sl =
     bnd (intersect (abase, abase + alen) (bbase, bbase + blen)) (\<lambda>i.
     bnd (case i of
            None \<Rightarrow> Inr sl
          | Some r \<Rightarrow>
              bnd (sync_of m (abase, amatch, alen) (bbase, bmatch, blen) r)
                (\<lambda>s. Inr (sl @ [s])))
       (\<lambda>sl'.
          if abase + alen < bbase + blen
          then sync_loop m amatches ((bbase, bmatch, blen) # bmatches) sl'
          else sync_loop m ((abase, amatch, alen) # amatches) bmatches sl'))"

text \<open>The two texts handed to the matcher for one side.\<close>

definition matchtext :: "Merge3Text \<Rightarrow> string \<Rightarrow> string list \<Rightarrow> string" where
  "matchtext m text words =
     (if self_wordmerge m = enforced then concat_words words else text)"

definition amatches_of :: "matcher \<Rightarrow> Merge3Text \<Rightarrow> block list" where
  "amatches_of gmb m =
     gmb (matchtext m (self_basetext m) (self_base m)) (matchtext m (self_atext m) (self_a m))"

definition bmatches_of :: "matcher \<Rightarrow> Merge3Text \<Rightarrow> block list" where
  "bmatches_of gmb m =
     gmb (matchtext m (self_basetext m) (self_base m)) (matchtext m (self_btext m) (self_b m))"

definition end_sync :: "Merge3Text \<Rightarrow> sync" where
  "end_sync m =
     (length (self_base m), length (self_base m),
      length (self_a m), length (self_a m),
      length (self_b m), length (self_b m))"

definition find_sync_regions :: "matcher \<Rightarrow> Merge3Text \<Rightarrow> sync list result" where
  "find_sync_regions gmb m =
     bnd (sync_loop m (amatches_of gmb m) (bmatches_of gmb m) [])
       (\<lambda>sl. Inr (sl @ [end_sync m]))"

subsection \<open>Generators\<close>

text \<open>
  A Python generator that is consumed to its end is the list of the values it yields
  together with the way it stops: normally (\<open>None\<close>) or with an exception. The values
  yielded before the exception reach the consumer, which is what the renderer's loop
  over the regions sees.
\<close>

type_synonym 'a gen = "'a list \<times> error option"

definition raises :: "error \<Rightarrow> 'a gen" where
  "raises e = ([], Some e)"

definition yields :: "'a list \<Rightarrow> 'a gen \<Rightarrow> 'a gen" where
  "yields xs g = (xs @ fst g, snd g)"

subsection \<open>merge_regions\<close>

text \<open>
  The tagged tuples \<^verbatim>\<open>("unchanged", start, end)\<close>, \<^verbatim>\<open>("same", astart, aend)\<close>,
  \<^verbatim>\<open>("a", start, end)\<close>, \<^verbatim>\<open>("b", start, end)\<close> and
  \<^verbatim>\<open>("conflict", zstart, zend, astart, aend, bstart, bend)\<close>. No other tag is ever
  yielded, so the renderer's final \<^verbatim>\<open>raise ValueError(what)\<close> has no case here.
\<close>

datatype region =
    Unchanged nat nat
  | Same nat nat
  | TakeA nat nat
  | TakeB nat nat
  | Conflict nat nat nat nat nat nat

text \<open>The body of \<^verbatim>\<open>if len_a or len_b:\<close> up to the yield.\<close>

definition classify ::
  "Merge3Text \<Rightarrow> nat \<Rightarrow> nat \<Rightarrow> nat \<Rightarrow> nat \<Rightarrow> nat \<Rightarrow> nat \<Rightarrow> region result" where
  "classify m iz zmatch ia amatch ib bmatch =
     bnd (compare_range (self_a m) ia amatch (self_base m) iz zmatch) (\<lambda>equal_a.
     bnd (compare_range (self_b m) ib bmatch (self_base m) iz zmatch) (\<lambda>equal_b.
     bnd (compare_range (self_a m) ia amatch (self_b m) ib bmatch) (\<lambda>same.
       if same then Inr (Same ia amatch)
       else if equal_a \<and> \<not> equal_b then Inr (TakeB ib bmatch)
       else if equal_b \<and> \<not> equal_a then Inr (TakeA ia amatch)
       else if \<not> equal_a \<and> \<not> equal_b then Inr (Conflict iz zmatch ia amatch ib bmatch)
       else Inl (AssertionError (Message ''can't handle a=b=base but unmatched'')))))"

text \<open>
  The loop over the sync regions, with the cursors \<open>iz\<close>, \<open>ia\<close>, \<open>ib\<close>. The assert
  \<^verbatim>\<open>iz == zmatch\<close> follows the assignment \<^verbatim>\<open>iz = zmatch\<close> and is not written out.
\<close>

fun regions_loop :: "Merge3Text \<Rightarrow> nat \<Rightarrow> nat \<Rightarrow> nat \<Rightarrow> sync list \<Rightarrow> region gen" where
  "regions_loop m iz ia ib [] = ([], None)"
| "regions_loop m iz ia ib ((zmatch, zend, amatch, aend, bmatch, bend) # rest) =
     (if \<not> 0 \<le> int zend - int zmatch then raises (AssertionError NoMessage)
      else if int zend - int zmatch \<noteq> int aend - int amatch then raises (AssertionError NoMessage)
      else if int zend - int zmatch \<noteq> int bend - int bmatch then raises (AssertionError NoMessage)
      else if \<not> 0 \<le> int amatch - int ia then raises (AssertionError NoMessage)
      else if \<not> 0 \<le> int bmatch - int ib then raises (AssertionError NoMessage)
      else if \<not> 0 \<le> int zmatch - int iz then raises (AssertionError NoMessage)
      else
        (case (if amatch - ia \<noteq> 0 \<or> bmatch - ib \<noteq> 0
               then bnd (classify m iz zmatch ia amatch ib bmatch)
                      (\<lambda>r. Inr ([r], amatch, bmatch))
               else Inr ([], ia, ib)) of
           Inl e \<Rightarrow> raises e
         | Inr (gap, ia', ib') \<Rightarrow>
             if zend - zmatch > 0 then
               (if ia' \<noteq> amatch \<or> ib' \<noteq> bmatch
                then yields gap (raises (AssertionError NoMessage))
                else yields (gap @ [Unchanged zmatch zend])
                       (regions_loop m zend aend bend rest))
             else yields gap (regions_loop m zmatch ia' ib' rest)))"

definition merge_regions :: "matcher \<Rightarrow> Merge3Text \<Rightarrow> region gen" where
  "merge_regions gmb m =
     (case find_sync_regions gmb m of
        Inl e \<Rightarrow> raises e
      | Inr sl \<Rightarrow> regions_loop m 0 0 0 sl)"

subsection \<open>minimize\<close>

text \<open>The two \<^verbatim>\<open>while\<close> loops, counting matches at the front and at the end.\<close>

function front_loop :: "Merge3Text \<Rightarrow> nat \<Rightarrow> nat \<Rightarrow> int \<Rightarrow> int \<Rightarrow> nat \<Rightarrow> nat result" where
  "front_loop m a1 b1 alen blen ii =
     (if int ii < alen \<and> int ii < blen then
        (case getitem (self_a m) (a1 + ii) of
           Inl e \<Rightarrow> Inl e
         | Inr x \<Rightarrow>
             (case getitem (self_b m) (b1 + ii) of
                Inl e \<Rightarrow> Inl e
              | Inr y \<Rightarrow> if x = y then front_loop m a1 b1 alen blen (ii + 1) else Inr ii))
      else Inr ii)"
  by pat_completeness auto
termination
  by (relation "measure (\<lambda>(m, a1, b1, alen, blen, ii). nat (alen - int ii))") auto

function end_loop :: "Merge3Text \<Rightarrow> nat \<Rightarrow> nat \<Rightarrow> int \<Rightarrow> int \<Rightarrow> nat \<Rightarrow> nat result" where
  "end_loop m a2 b2 alen blen ii =
     (if int ii < alen \<and> int ii < blen then
        (case getitem (self_a m) (a2 - ii - 1) of
           Inl e \<Rightarrow> Inl e
         | Inr x \<Rightarrow>
             (case getitem (self_b m) (b2 - ii - 1) of
                Inl e \<Rightarrow> Inl e
              | Inr y \<Rightarrow> if x = y then end_loop m a2 b2 alen blen (ii + 1) else Inr ii))
      else Inr ii)"
  by pat_completeness auto
termination
  by (relation "measure (\<lambda>(m, a2, b2, alen, blen, ii). nat (alen - int ii))") auto

text \<open>What one region of the input becomes.\<close>

fun minimize_region :: "Merge3Text \<Rightarrow> region \<Rightarrow> region list result" where
  "minimize_region m (Conflict z1 z2 a1 a2 b1 b2) =
     (let alen = int a2 - int a1;
          blen = int b2 - int b1
      in
      bnd (front_loop m a1 b1 alen blen 0) (\<lambda>startmatches.
      bnd (end_loop m a2 b2 alen blen 0) (\<lambda>endmatches.
        Inr ((if startmatches > 0 then [Same a1 (a1 + startmatches)] else [])
             @ [Conflict z1 z2 (a1 + startmatches) (a2 - endmatches)
                  (b1 + startmatches) (b2 - endmatches)]
             @ (if endmatches > 0 then [Same (a2 - endmatches) a2] else [])))))"
| "minimize_region m r = Inr [r]"

fun minimize_loop :: "Merge3Text \<Rightarrow> region list \<Rightarrow> error option \<Rightarrow> region gen" where
  "minimize_loop m [] stop = ([], stop)"
| "minimize_loop m (r # rs) stop =
     (case minimize_region m r of
        Inl e \<Rightarrow> raises e
      | Inr out \<Rightarrow> yields out (minimize_loop m rs stop))"

definition minimize :: "Merge3Text \<Rightarrow> region gen \<Rightarrow> region gen" where
  "minimize m regions = minimize_loop m (fst regions) (snd regions)"

subsection \<open>merge_lines\<close>

text \<open>The keyword arguments of \<^verbatim>\<open>merge_lines\<close> and their defaults.\<close>

record merge_args =
  name_a :: "string option"
  name_b :: "string option"
  name_base :: "string option"
  start_marker :: "string option"
  mid_marker :: "string option"
  end_marker :: "string option"
  base_marker :: "string option"
  localorother :: "string option"
  minimize_arg :: bool

definition default_args :: merge_args where
  "default_args =
     \<lparr> name_a = None, name_b = None, name_base = None,
       start_marker = Some ''<<<<<<<'', mid_marker = Some ''======='',
       end_marker = Some ''>>>>>>>'', base_marker = None,
       localorother = None, minimize_arg = False \<rparr>"

text \<open>The attributes \<^verbatim>\<open>self.conflicts\<close> and \<^verbatim>\<open>self.conflictscount\<close>.\<close>

record merge_state =
  conflicts :: bool
  conflictscount :: nat

text \<open>
  What the generator yields: a byte string, tagged by the statement that yields it. The
  four \<^verbatim>\<open>yield marker + newline\<close> statements yield a \<open>Marker\<close>, every other yield
  a \<open>Line\<close>. The consumer sees the bytes only.
\<close>

datatype chunk = Line string | Marker string

fun chunk_bytes :: "chunk \<Rightarrow> string" where
  "chunk_bytes (Line s) = s"
| "chunk_bytes (Marker s) = s"

text \<open>\<^verbatim>\<open>b"".join(...)\<close> of the yielded chunks.\<close>

definition joined :: "chunk list \<Rightarrow> string" where
  "joined out = concat (map chunk_bytes out)"

text \<open>The newline sniffed from the first token of \<open>a\<close>.\<close>

definition newline_of :: "Merge3Text \<Rightarrow> string" where
  "newline_of m =
     (if length (self_a m) > 0 then
        (if endswith (self_a m ! 0) [CHR 0x0D, CHR 0x0A] then [CHR 0x0D, CHR 0x0A]
         else if endswith (self_a m ! 0) [CHR 0x0D] then [CHR 0x0D]
         else [CHR 0x0A])
      else [CHR 0x0A])"

text \<open>\<^verbatim>\<open>if name and marker: marker = marker + b" " + name\<close>\<close>

definition with_label :: "string option \<Rightarrow> string option \<Rightarrow> string option" where
  "with_label name marker =
     (case (name, marker) of
        (Some n, Some s) \<Rightarrow> if n \<noteq> [] \<and> s \<noteq> [] then Some (s @ '' '' @ n) else marker
      | _ \<Rightarrow> marker)"

text \<open>\<^verbatim>\<open>if marker is not None: yield marker + newline\<close>\<close>

definition marker_line :: "string option \<Rightarrow> string \<Rightarrow> chunk list" where
  "marker_line marker newline =
     (case marker of None \<Rightarrow> [] | Some s \<Rightarrow> [Marker (s @ newline)])"

text \<open>\<^verbatim>\<open>for i in range(lo, hi): yield xs[i]\<close>\<close>

definition yield_range :: "string list \<Rightarrow> nat \<Rightarrow> nat \<Rightarrow> chunk list result" where
  "yield_range xs lo hi = bnd (getitems xs [lo..<hi]) (\<lambda>r. Inr (map Line r))"

text \<open>The word-merge fallback as the renderer calls it.\<close>

type_synonym fallback = "string \<Rightarrow> string \<Rightarrow> string \<Rightarrow> string option result"

text \<open>The part of the conflict branch that marks a conflict and yields the markers.\<close>

definition show_conflict ::
  "Merge3Text \<Rightarrow> merge_args \<Rightarrow> string \<Rightarrow> nat \<Rightarrow> nat \<Rightarrow> nat \<Rightarrow> nat \<Rightarrow> nat \<Rightarrow> nat
   \<Rightarrow> merge_state \<Rightarrow> (chunk list \<times> merge_state) result" where
  "show_conflict m args newline z1 z2 a1 a2 b1 b2 st =
     bnd (yield_range (self_a m) a1 a2) (\<lambda>alines.
     bnd (if base_marker args \<noteq> None then yield_range (self_base m) z1 z2 else Inr [])
       (\<lambda>baselines.
     bnd (yield_range (self_b m) b1 b2) (\<lambda>blines.
       Inr (marker_line (start_marker args) newline
            @ alines
            @ marker_line (base_marker args) newline @ baselines
            @ marker_line (mid_marker args) newline
            @ blines
            @ marker_line (end_marker args) newline,
            st\<lparr> conflicts := True, conflictscount := conflictscount st + 1 \<rparr>))))"

text \<open>The body of the loop over the regions, for one region \<open>t\<close>.\<close>

fun render_region ::
  "fallback \<Rightarrow> Merge3Text \<Rightarrow> merge_args \<Rightarrow> string \<Rightarrow> region \<Rightarrow> merge_state
   \<Rightarrow> (chunk list \<times> merge_state) result" where
  "render_region tw m args newline (Unchanged lo hi) st =
     bnd (yield_range (self_base m) lo hi) (\<lambda>out. Inr (out, st))"
| "render_region tw m args newline (Same lo hi) st =
     bnd (yield_range (self_a m) lo hi) (\<lambda>out. Inr (out, st))"
| "render_region tw m args newline (TakeA lo hi) st =
     bnd (yield_range (self_a m) lo hi) (\<lambda>out. Inr (out, st))"
| "render_region tw m args newline (TakeB lo hi) st =
     bnd (yield_range (self_b m) lo hi) (\<lambda>out. Inr (out, st))"
| "render_region tw m args newline (Conflict z1 z2 a1 a2 b1 b2) st =
     (if localorother args = Some ''local'' then
        bnd (yield_range (self_a m) a1 a2) (\<lambda>out. Inr (out, st))
      else if localorother args = Some ''other'' then
        bnd (yield_range (self_b m) b1 b2) (\<lambda>out. Inr (out, st))
      else if self_wordmerge m = enforced then
        Inl CantShowWordConflicts
      else
        bnd (if self_wordmerge m = ondemand
             then tw (concat (pyslice (self_base m) z1 z2))
                     (concat (pyslice (self_a m) a1 a2))
                     (concat (pyslice (self_b m) b1 b2))
             else Inr None)
          (\<lambda>text.
             if text \<noteq> None \<and> text \<noteq> Some []
             then Inr (map Line (splitlines (the text)), st)
             else show_conflict m args newline z1 z2 a1 a2 b1 b2 st))"

text \<open>
  The loop \<^verbatim>\<open>for t in merge_regions\<close>: the regions the generator yields, then the way it
  stopped.
\<close>

fun render ::
  "fallback \<Rightarrow> Merge3Text \<Rightarrow> merge_args \<Rightarrow> string \<Rightarrow> region list \<Rightarrow> error option
   \<Rightarrow> merge_state \<Rightarrow> (chunk list \<times> merge_state) result" where
  "render tw m args newline [] stop st =
     (case stop of None \<Rightarrow> Inr ([], st) | Some e \<Rightarrow> Inl e)"
| "render tw m args newline (t # ts) stop st =
     bnd (render_region tw m args newline t st) (\<lambda>(out, st').
     bnd (render tw m args newline ts stop st') (\<lambda>(out', st'').
       Inr (out @ out', st'')))"

text \<open>
  \<^verbatim>\<open>merge_lines\<close>, consumed to its end, with the fallback \<open>tw\<close> for \<^verbatim>\<open>trywordmerge\<close>:
  the chunks yielded and the final \<^verbatim>\<open>self.conflicts\<close>, \<^verbatim>\<open>self.conflictscount\<close>.
\<close>

definition merge_lines_with ::
  "fallback \<Rightarrow> matcher \<Rightarrow> Merge3Text \<Rightarrow> merge_args \<Rightarrow> (chunk list \<times> merge_state) result" where
  "merge_lines_with tw gmb m args =
     (let st = \<lparr> conflicts = False, conflictscount = 0 \<rparr>;
          newline = newline_of m;
          args' = args\<lparr> start_marker := with_label (name_a args) (start_marker args),
                        end_marker := with_label (name_b args) (end_marker args),
                        base_marker := with_label (name_base args) (base_marker args) \<rparr>;
          regions = merge_regions gmb m;
          regions' = (if minimize_arg args then minimize m regions else regions)
      in render tw m args' newline (fst regions') (snd regions') st)"

subsection \<open>trywordmerge\<close>

text \<open>
  \<^verbatim>\<open>merge_lines\<close> calls \<^verbatim>\<open>trywordmerge\<close>, which calls \<^verbatim>\<open>merge_lines\<close> on a new
  \<^verbatim>\<open>Merge3Text\<close>. The recursion is over \<open>depth\<close>, the number of nested \<^verbatim>\<open>trywordmerge\<close>
  frames still allowed; a call beyond it is Python's RecursionError. The \<^verbatim>\<open>except\<close>
  clause turns \<^verbatim>\<open>CantShowWordConflicts\<close>, and nothing else, into \<^verbatim>\<open>None\<close>.
\<close>

fun trywordmerge :: "nat \<Rightarrow> matcher \<Rightarrow> string \<Rightarrow> string \<Rightarrow> string \<Rightarrow> string option result" where
  "trywordmerge 0 gmb basetext atext btext = Inl RecursionError"
| "trywordmerge (Suc depth) gmb basetext atext btext =
     (let m3 = Merge3Text_init basetext atext btext enforced in
      case merge_lines_with (trywordmerge depth gmb) gmb m3 default_args of
        Inl e \<Rightarrow> if e = CantShowWordConflicts then Inr None else Inl e
      | Inr (out, st) \<Rightarrow> Inr (Some (joined out)))"

definition merge_lines ::
  "nat \<Rightarrow> matcher \<Rightarrow> Merge3Text \<Rightarrow> merge_args \<Rightarrow> (chunk list \<times> merge_state) result" where
  "merge_lines depth gmb m args = merge_lines_with (trywordmerge depth gmb) gmb m args"

subsection \<open>A reference matcher\<close>

text \<open>
  Modelled from the spec: the matching-block provider \<^verbatim>\<open>mdiff.get_matching_blocks\<close>,
  whose source is not part of the module. The spec asks for the classical
  longest-common-subsequence matching blocks of the lines of two texts: ascending,
  non-overlapping, ending with the zero-length block at the two ends. A line of the
  matcher ends with \<^verbatim>\<open>\n\<close>, so that one escaped word is one line. It serves as the
  concrete matcher wherever a merge is evaluated.
\<close>

fun matcher_lines_from :: "string \<Rightarrow> string \<Rightarrow> string list" where
  "matcher_lines_from cur [] = (if cur = [] then [] else [cur])"
| "matcher_lines_from cur (c # cs) =
     (if c = CHR 0x0A then (cur @ [c]) # matcher_lines_from [] cs
      else matcher_lines_from (cur @ [c]) cs)"

fun lcs_pairs :: "'a list \<Rightarrow> 'a list \<Rightarrow> nat \<Rightarrow> nat \<Rightarrow> (nat \<times> nat) list" where
  "lcs_pairs [] ys i j = []"
| "lcs_pairs (x # xs) [] i j = []"
| "lcs_pairs (x # xs) (y # ys) i j =
     (if x = y then (i, j) # lcs_pairs xs ys (i + 1) (j + 1)
      else
        let l = lcs_pairs xs (y # ys) (i + 1) j;
            r = lcs_pairs (x # xs) ys i (j + 1)
        in if length r \<le> length l then l else r)"

fun add_pair :: "nat \<times> nat \<Rightarrow> block list \<Rightarrow> block list" where
  "add_pair (i, j) [] = [(i, j, 1)]"
| "add_pair (i, j) ((p, q, l) # rest) =
     (if p = i + 1 \<and> q = j + 1 then (i, j, l + 1) # rest
      else (i, j, 1) # (p, q, l) # rest)"

definition lcs_blocks :: matcher where
  "lcs_blocks x y =
     (let xl = matcher_lines_from [] x;
          yl = matcher_lines_from [] y
      in foldr add_pair (lcs_pairs xl yl 0 0) [] @ [(length xl, length yl, 0)])"

subsection \<open>Notions used in the statements\<close>

text \<open>
  The exceptions that the sync-region finder, the classifier, the minimizer and the reads
  of the renderer raise: IndexError, and the assertions other than the classifier's
  final \<^verbatim>\<open>raise AssertionError("can't handle a=b=base but unmatched")\<close>.
\<close>

fun structural :: "error \<Rightarrow> bool" where
  "structural (AssertionError (Message s)) = False"
| "structural (AssertionError i) = True"
| "structural IndexError = True"
| "structural CantShowWordConflicts = False"
| "structural RecursionError = False"

text \<open>The regions tagged \<^verbatim>\<open>"conflict"\<close>.\<close>

fun is_conflict :: "region \<Rightarrow> bool" where
  "is_conflict (Conflict z1 z2 a1 a2 b1 b2) = True"
| "is_conflict r = False"

text \<open>
  What a sync region asserts: the three slices are equal and have the same length.
\<close>

definition sync_invariant :: "Merge3Text \<Rightarrow> sync \<Rightarrow> bool" where
  "sync_invariant m s =
     (case s of (z1, z2, a1, a2, b1, b2) \<Rightarrow>
        pyslice (self_base m) z1 z2 = pyslice (self_a m) a1 a2 \<and>
        pyslice (self_base m) z1 z2 = pyslice (self_b m) b1 b2 \<and>
        int z2 - int z1 = int a2 - int a1 \<and>
        int z2 - int z1 = int b2 - int b1)"



text \<open>
  Modelled from the spec: the contract of the matching-block provider, whose source is
  not part of the module. A matching block \<open>(p, q, l)\<close> asserts \<open>xs[p:p+l] = ys[q:q+l]\<close>;
  the blocks are ascending and non-overlapping and end with the zero-length block at the
  ends of the two sequences. For twice the same sequence the longest common subsequence
  is the sequence itself: one block covers it.
\<close>

definition identity_blocks :: "nat \<Rightarrow> block list" where
  "identity_blocks n = (if n = 0 then [(0, 0, 0)] else [(0, 0, n), (n, n, 0)])"

fun blocks_chain :: "'a list \<Rightarrow> 'a list \<Rightarrow> nat \<Rightarrow> nat \<Rightarrow> block list \<Rightarrow> bool" where
  "blocks_chain xs ys p0 q0 [] = True"
| "blocks_chain xs ys p0 q0 ((p, q, l) # rest) =
     (p0 \<le> p \<and> q0 \<le> q \<and> p + l \<le> length xs \<and> q + l \<le> length ys \<and>
      pyslice xs p (p + l) = pyslice ys q (q + l) \<and>
      blocks_chain xs ys (p + l) (q + l) rest)"

definition matching_blocks_ok :: "'a list \<Rightarrow> 'a list \<Rightarrow> block list \<Rightarrow> bool" where
  "matching_blocks_ok xs ys blocks =
     (blocks_chain xs ys 0 0 blocks \<and> blocks \<noteq> [] \<and> last blocks = (length xs, length ys, 0))"

text \<open>
  The tokens a region other than a conflict stands for, and the regions other than
  conflicts that lie within their sequence.
\<close>

fun region_lines :: "Merge3Text \<Rightarrow> region \<Rightarrow> string list" where
  "region_lines m (Unchanged lo hi) = pyslice (self_base m) lo hi"
| "region_lines m (Same lo hi) = pyslice (self_a m) lo hi"
| "region_lines m (TakeA lo hi) = pyslice (self_a m) lo hi"
| "region_lines m (TakeB lo hi) = pyslice (self_b m) lo hi"
| "region_lines m (Conflict z1 z2 a1 a2 b1 b2) = []"

fun plain_region :: "Merge3Text \<Rightarrow> region \<Rightarrow> bool" where
  "plain_region m (Unchanged lo hi) = (hi \<le> length (self_base m))"
| "plain_region m (Same lo hi) = (hi \<le> length (self_a m))"
| "plain_region m (TakeA lo hi) = (hi \<le> length (self_a m))"
| "plain_region m (TakeB lo hi) = (hi \<le> length (self_b m))"
| "plain_region m (Conflict z1 z2 a1 a2 b1 b2) = False"

text \<open>
  The sync regions that the blocks of one side give when the other side is the base
  itself: \<open>syncs_a\<close> when \<open>a\<close> is the base, \<open>syncs_b\<close> when \<open>b\<close> is.
\<close>

fun syncs_a :: "block list \<Rightarrow> sync list" where
  "syncs_a [] = []"
| "syncs_a ((p, q, l) # rest) =
     (if l > 0 then [(p, p + l, p, p + l, q, q + l)] else []) @ syncs_a rest"

fun syncs_b :: "block list \<Rightarrow> sync list" where
  "syncs_b [] = []"
| "syncs_b ((p, q, l) # rest) =
     (if l > 0 then [(p, p + l, q, q + l, p, p + l)] else []) @ syncs_b rest"

text \<open>
  The non-marker tokens of an output, and when two runs of \<^verbatim>\<open>merge_lines\<close> agree on
  them: both raise the same exception, or both return, with the same set of non-marker
  tokens and the same \<^verbatim>\<open>conflicts\<close> and \<^verbatim>\<open>conflictscount\<close>.
\<close>

fun lines_of :: "chunk list \<Rightarrow> string list" where
  "lines_of [] = []"
| "lines_of (Line s # rest) = s # lines_of rest"
| "lines_of (Marker s # rest) = lines_of rest"

fun same_tokens ::
  "(chunk list \<times> merge_state) result \<Rightarrow> (chunk list \<times> merge_state) result \<Rightarrow> bool" where
  "same_tokens (Inl e) (Inl e') = (e = e')"
| "same_tokens (Inr (out, st)) (Inr (out', st')) =
     (set (lines_of out) = set (lines_of out') \<and> st = st')"
| "same_tokens (Inl e) (Inr r) = False"
| "same_tokens (Inr r) (Inl e) = False"

text \<open>A conflict region whose two sides lie within \<open>a\<close> and \<open>b\<close>.\<close>

fun conflict_in_range :: "Merge3Text \<Rightarrow> region \<Rightarrow> bool" where
  "conflict_in_range m (Conflict z1 z2 a1 a2 b1 b2) =
     (a1 \<le> a2 \<and> a2 \<le> length (self_a m) \<and> b1 \<le> b2 \<and> b2 \<le> length (self_b m))"
| "conflict_in_range m r = True"

text \<open>
  The state of the loop of \<^verbatim>\<open>find_sync_regions\<close> for one side, when the blocks are valid:
  \<open>iz\<close>, \<open>ix\<close> are the ends of the last sync region in the base and in the side; the
  first remaining block reaches \<open>iz\<close> or lies beyond it, and the side's end lies on its
  diagonal or before it.
\<close>

fun side_ok :: "'a list \<Rightarrow> 'a list \<Rightarrow> nat \<Rightarrow> nat \<Rightarrow> block list \<Rightarrow> bool" where
  "side_ok zs xs iz ix [] = True"
| "side_ok zs xs iz ix ((p, q, l) # rest) =
     (ix + p \<le> q + max iz p \<and> iz \<le> p + l \<and>
      p + l \<le> length zs \<and> q + l \<le> length xs \<and>
      pyslice zs p (p + l) = pyslice xs q (q + l) \<and>
      blocks_chain zs xs (p + l) (q + l) rest)"

text \<open>
  Sync regions in ascending order from the cursors on, each within the three sequences
  and of one length on the three of them.
\<close>

fun syncs_from :: "Merge3Text \<Rightarrow> nat \<Rightarrow> nat \<Rightarrow> nat \<Rightarrow> sync list \<Rightarrow> bool" where
  "syncs_from m iz ia ib [] = True"
| "syncs_from m iz ia ib ((z1, z2, a1, a2, b1, b2) # rest) =
     (iz \<le> z1 \<and> ia \<le> a1 \<and> ib \<le> b1 \<and> z1 \<le> z2 \<and>
      a2 = a1 + (z2 - z1) \<and> b2 = b1 + (z2 - z1) \<and>
      z2 \<le> length (self_base m) \<and> a2 \<le> length (self_a m) \<and> b2 \<le> length (self_b m) \<and>
      syncs_from m z2 a2 b2 rest)"

text \<open>A region whose ranges lie within their sequences.\<close>

fun region_in_range :: "Merge3Text \<Rightarrow> region \<Rightarrow> bool" where
  "region_in_range m (Unchanged lo hi) = (lo \<le> hi \<and> hi \<le> length (self_base m))"
| "region_in_range m (Same lo hi) = (lo \<le> hi \<and> hi \<le> length (self_a m))"
| "region_in_range m (TakeA lo hi) = (lo \<le> hi \<and> hi \<le> length (self_a m))"
| "region_in_range m (TakeB lo hi) = (lo \<le> hi \<and> hi \<le> length (self_b m))"
| "region_in_range m (Conflict z1 z2 a1 a2 b1 b2) =
     (z1 \<le> z2 \<and> z2 \<le> length (self_base m) \<and>
      a1 \<le> a2 \<and> a2 \<le> length (self_a m) \<and> b1 \<le> b2 \<and> b2 \<le> length (self_b m))"

text \<open>The first blocks of the two sides when one of them starts at \<open>iz\<close> or beyond.\<close>

fun heads_past :: "nat \<Rightarrow> block list \<Rightarrow> block list \<Rightarrow> bool" where
  "heads_past iz ((p, q, l) # as) ((p', q', l') # bs) = (iz \<le> max p p')"
| "heads_past iz as bs = True"

declare front_loop.simps [simp del] end_loop.simps [simp del]

section \<open>Basic facts\<close>

lemma bnd_Inr [simp]: "bnd (Inr v) f = f v"
  by (simp add: bnd_def)

lemma bnd_Inl [simp]: "bnd (Inl e) f = Inl e"
  by (simp add: bnd_def)

lemma bnd_eq_Inr: "bnd r f = Inr y \<longleftrightarrow> (\<exists>v. r = Inr v \<and> f v = Inr y)"
  by (cases r) auto

lemma bnd_eq_Inl: "bnd r f = Inl e \<longleftrightarrow> (r = Inl e \<or> (\<exists>v. r = Inr v \<and> f v = Inl e))"
  by (cases r) auto

lemma yields_simps [simp]: "fst (yields xs g) = xs @ fst g" "snd (yields xs g) = snd g"
  by (simp_all add: yields_def)

lemma raises_simps [simp]: "fst (raises e) = []" "snd (raises e) = Some e"
  by (simp_all add: raises_def)

section \<open>The tokens of splitwordswithoutemptylines\<close>

lemma splitwords_nonempty: "[] \<notin> set (splitwords s)"
  by (induction s rule: splitwords.induct) auto

lemma foldwords_append: "foldwords ws buf (r1 @ r2) = r1 @ foldwords ws buf r2"
  by (induction ws buf r2 arbitrary: r1 rule: foldwords.induct) auto

text \<open>Once a token has started with a word that is not a newline, no lone newline follows.\<close>

lemma foldwords_started:
  "[] \<notin> set ws \<Longrightarrow> concat buf \<noteq> [] \<Longrightarrow> concat buf \<noteq> [CHR 0x0A]
   \<Longrightarrow> [CHR 0x0A] \<notin> set (foldwords ws buf [])"
proof (induction ws arbitrary: buf)
  case Nil
  then show ?case by auto
next
  case (Cons w ws)
  have ws: "[] \<notin> set ws" using Cons.prems(1) by simp
  show ?case
  proof (cases "w = [CHR 0x0A]")
    case True
    have h2: "concat (buf @ [w]) \<noteq> [CHR 0x0A]"
      using Cons.prems True by (cases "concat buf") auto
    have h1: "concat (buf @ [w]) \<noteq> []" using True by simp
    have "[CHR 0x0A] \<notin> set (foldwords ws (buf @ [w]) [])"
      by (rule Cons.IH[OF ws h1 h2])
    then show ?thesis using True by simp
  next
    case False
    have b: "buf \<noteq> []" using Cons.prems by auto
    have w: "concat [w] \<noteq> []" "concat [w] \<noteq> [CHR 0x0A]" using False Cons.prems(1) by auto
    have "[CHR 0x0A] \<notin> set (foldwords ws [w] [])"
      by (rule Cons.IH[OF ws w])
    moreover have "foldwords (w # ws) buf [] = concat buf # foldwords ws [w] []"
      using False b foldwords_append[of ws "[w]" "[concat buf]" "[]"] by simp
    ultimately show ?thesis using Cons.prems by simp
  qed
qed

text \<open>While only newlines have been read, the token under construction is the first one.\<close>

lemma foldwords_leading:
  "[] \<notin> set ws \<Longrightarrow> set buf \<subseteq> {[CHR 0x0A]}
   \<Longrightarrow> [CHR 0x0A] \<notin> set (tl (foldwords ws buf []))"
proof (induction ws arbitrary: buf)
  case Nil
  then show ?case by auto
next
  case (Cons w ws)
  have ws: "[] \<notin> set ws" using Cons.prems(1) by simp
  show ?case
  proof (cases "w = [CHR 0x0A]")
    case True
    then show ?thesis using Cons.IH[of "buf @ [w]"] Cons.prems by simp
  next
    case False
    have w: "concat [w] \<noteq> []" "concat [w] \<noteq> [CHR 0x0A]" using False Cons.prems(1) by auto
    have st: "[CHR 0x0A] \<notin> set (foldwords ws [w] [])"
      by (rule foldwords_started[OF ws w])
    show ?thesis
    proof (cases "buf = []")
      case True
      then have "foldwords (w # ws) buf [] = foldwords ws [w] []" by simp
      then show ?thesis using st by (metis list.sel(2) list.set_sel(2))
    next
      case b: False
      have "foldwords (w # ws) buf [] = concat buf # foldwords ws [w] []"
        using False b foldwords_append[of ws "[w]" "[concat buf]" "[]"] by simp
      then show ?thesis using st by simp
    qed
  qed
qed

text \<open>
  Claim C9, as the spec states it: no token of \<^verbatim>\<open>splitwordswithoutemptylines\<close> is the lone
  byte string \<^verbatim>\<open>"\n"\<close>. It fails for a buffer that starts with a newline: there is no
  preceding word to fold it into, and the first token of \<^verbatim>\<open>"\nfoo"\<close> is \<^verbatim>\<open>"\n"\<close>.
\<close>

theorem lone_newline_token_counterexample:
  "''\<newline>'' \<in> set (splitwordswithoutemptylines ''\<newline>foo'')"
  by (simp add: splitwordswithoutemptylines_def samerun_def isspace_def)

text \<open>
  Claim C9, amended: for every input buffer, no token of \<^verbatim>\<open>splitwordswithoutemptylines\<close>
  other than the first one is the lone byte string \<^verbatim>\<open>"\n"\<close>.
\<close>

theorem tail_tokens_not_newline:
  "[CHR 0x0A] \<notin> set (tl (splitwordswithoutemptylines s))"
  unfolding splitwordswithoutemptylines_def
  using foldwords_leading[OF splitwords_nonempty, of "[]"] by simp

section \<open>The conflict flag and the conflict count\<close>

lemma show_conflict_state:
  "show_conflict m args nl z1 z2 a1 a2 b1 b2 st = Inr (out, st') \<Longrightarrow>
   st' = st\<lparr> conflicts := True, conflictscount := conflictscount st + 1 \<rparr>"
  by (auto simp: show_conflict_def bnd_eq_Inr)

lemma render_region_state:
  "render_region tw m args nl t st = Inr (out, st') \<Longrightarrow>
   st' = st \<or>
   (st' = st\<lparr> conflicts := True, conflictscount := conflictscount st + 1 \<rparr> \<and>
    localorother args \<noteq> Some ''local'' \<and> localorother args \<noteq> Some ''other'')"
  by (cases t) (auto simp: bnd_eq_Inr split: if_splits dest: show_conflict_state)

lemma render_state:
  "render tw m args nl rs stop st = Inr (out, st') \<Longrightarrow>
   (conflicts st \<longleftrightarrow> 0 < conflictscount st) \<Longrightarrow>
   (conflicts st' \<longleftrightarrow> 0 < conflictscount st') \<and>
   ((localorother args = Some ''local'' \<or> localorother args = Some ''other'') \<longrightarrow> st' = st)"
proof (induction rs arbitrary: st out)
  case Nil
  then show ?case by (auto split: option.splits)
next
  case (Cons t ts)
  from Cons.prems(1) obtain o1 s1 o2 where
    r1: "render_region tw m args nl t st = Inr (o1, s1)" and
    r2: "render tw m args nl ts stop s1 = Inr (o2, st')"
    by (auto simp: bnd_eq_Inr)
  from render_region_state[OF r1] Cons.prems(2)
  have inv: "conflicts s1 \<longleftrightarrow> 0 < conflictscount s1" by auto
  from Cons.IH[OF r2 inv] render_region_state[OF r1] show ?case by auto
qed

lemma merge_lines_with_render:
  "\<exists>args' rs stop.
     merge_lines_with tw gmb m args =
       render tw m args' (newline_of m) rs stop \<lparr> conflicts = False, conflictscount = 0 \<rparr>
     \<and> localorother args' = localorother args"
  unfolding merge_lines_with_def Let_def
  by (intro exI conjI, rule refl, simp)

text \<open>
  Claim C10: when \<^verbatim>\<open>merge_lines\<close> has been consumed without raising, \<^verbatim>\<open>conflicts\<close> is
  true exactly when \<^verbatim>\<open>conflictscount\<close> is positive; with \<^verbatim>\<open>localorother\<close> set to
  \<^verbatim>\<open>"local"\<close> or \<^verbatim>\<open>"other"\<close> the flag stays false and the count stays 0.
\<close>

theorem conflicts_flag_iff_count:
  assumes "merge_lines depth gmb m args = Inr (out, st)"
  shows "(conflicts st \<longleftrightarrow> 0 < conflictscount st) \<and>
         ((localorother args = Some ''local'' \<or> localorother args = Some ''other'')
            \<longrightarrow> \<not> conflicts st \<and> conflictscount st = 0)"
proof -
  obtain args' rs stop where
    r: "render (trywordmerge depth gmb) m args' (newline_of m) rs stop
          \<lparr> conflicts = False, conflictscount = 0 \<rparr> = Inr (out, st)"
    and l: "localorother args' = localorother args"
    using assms merge_lines_with_render[of "trywordmerge depth gmb" gmb m args]
    unfolding merge_lines_def by auto
  from render_state[OF r] l show ?thesis by auto
qed

theorem conflicts_flag_iff_count_witness:
  "merge_lines 1 lcs_blocks
     (Merge3Text_init ''one\<newline>'' ''two\<newline>'' ''three\<newline>'' disabled)
     (default_args\<lparr> localorother := Some ''other'' \<rparr>)
   = Inr ([Line ''three\<newline>''], \<lparr> conflicts = False, conflictscount = 0 \<rparr>)
   \<and> conflicts \<lparr> conflicts = False, conflictscount = 0 \<rparr>
       = (0 < conflictscount \<lparr> conflicts = False, conflictscount = 0 \<rparr>)"
proof -
  have e: "merge_lines 1 lcs_blocks
     (Merge3Text_init ''one\<newline>'' ''two\<newline>'' ''three\<newline>'' disabled)
     (default_args\<lparr> localorother := Some ''other'' \<rparr>)
   = Inr ([Line ''three\<newline>''], \<lparr> conflicts = False, conflictscount = 0 \<rparr>)"
    by code_simp
  from conflicts_flag_iff_count[OF e] e show ?thesis by simp
qed

section \<open>compare_range and the classifier\<close>

lemma compare_loop_True:
  "compare_loop a b ps = Inr True \<longleftrightarrow>
     (\<forall>p \<in> set ps. fst p < length a \<and> snd p < length b \<and> a ! fst p = b ! snd p)"
  by (induction ps) (auto simp: getitem_def split: if_splits)

lemma set_zip_upt:
  "set (zip [i..<j] [k..<l]) = {(i + t, k + t) | t. t < j - i \<and> t < l - k}"
  apply (auto simp: set_zip)
  subgoal for t by (rule exI[of _ t]) simp
  done

lemma compare_range_True:
  "compare_range a i j b k l = Inr True \<longleftrightarrow>
     int j - int i = int l - int k \<and>
     (\<forall>t. t < j - i \<longrightarrow> i + t < length a \<and> k + t < length b \<and> a ! (i + t) = b ! (k + t))"
proof (cases "int j - int i = int l - int k")
  case True
  then have "j - i = l - k" by linarith
  then show ?thesis using True
    by (auto simp: compare_range_def compare_loop_True set_zip_upt)
next
  case False
  then show ?thesis by (simp add: compare_range_def)
qed

lemma compare_range_trans:
  assumes "compare_range a ia am z iz zm = Inr True"
    and "compare_range b ib bm z iz zm = Inr True"
  shows "compare_range a ia am b ib bm = Inr True"
proof -
  from assms(1) have a1: "int am - int ia = int zm - int iz"
    and a2: "\<And>t. t < am - ia \<Longrightarrow> ia + t < length a \<and> a ! (ia + t) = z ! (iz + t)"
    by (simp_all add: compare_range_True)
  from assms(2) have b1: "int bm - int ib = int zm - int iz"
    and b2: "\<And>t. t < bm - ib \<Longrightarrow> ib + t < length b \<and> b ! (ib + t) = z ! (iz + t)"
    by (simp_all add: compare_range_True)
  from a1 b1 have len: "am - ia = bm - ib" by linarith
  show ?thesis
    unfolding compare_range_True
    using a1 b1 a2 b2[unfolded len[symmetric]] by auto
qed


lemma compare_loop_err: "compare_loop a b ps = Inl e \<Longrightarrow> e = IndexError"
  by (induction ps) (auto simp: getitem_def bnd_eq_Inl split: if_splits)

lemma compare_range_err: "compare_range a i j b k l = Inl e \<Longrightarrow> e = IndexError"
  by (auto simp: compare_range_def split: if_splits dest: compare_loop_err)

lemma classify_err: "classify m iz zm ia am ib bm = Inl e \<Longrightarrow> e = IndexError"
proof -
  assume c: "classify m iz zm ia am ib bm = Inl e"
  show ?thesis
  proof (cases "compare_range (self_a m) ia am (self_base m) iz zm")
    case (Inl x) then show ?thesis using c compare_range_err by (auto simp: classify_def)
  next
    case ea: (Inr equal_a)
    show ?thesis
    proof (cases "compare_range (self_b m) ib bm (self_base m) iz zm")
      case (Inl x) then show ?thesis using c ea compare_range_err by (auto simp: classify_def)
    next
      case eb: (Inr equal_b)
      show ?thesis
      proof (cases "compare_range (self_a m) ia am (self_b m) ib bm")
        case (Inl x) then show ?thesis using c ea eb compare_range_err by (auto simp: classify_def)
      next
        case sm: (Inr same)
        from c ea eb sm have "equal_a \<and> equal_b \<and> \<not> same"
          by (auto simp: classify_def split: if_splits)
        with compare_range_trans[of "self_a m" ia am "self_base m" iz zm "self_b m" ib bm] ea eb sm
        show ?thesis by auto
      qed
    qed
  qed
qed

lemma regions_loop_stop:
  "snd (regions_loop m iz ia ib sl) = Some e \<Longrightarrow> structural e"
proof (induction m iz ia ib sl rule: regions_loop.induct)
  case (1 m iz ia ib)
  then show ?case by simp
next
  case (2 m iz ia ib zmatch zend amatch aend bmatch bend rest)
  show ?case
    using "2.prems" "2.IH"
    by (auto simp: bnd_eq_Inr bnd_eq_Inl split: if_splits sum.splits dest!: classify_err)
qed


section \<open>Which exceptions each stage raises\<close>

lemma intersect_err: "intersect ra rb = Inl e \<Longrightarrow> structural e"
  by (auto simp: intersect_def Let_def split: if_splits)

lemma sync_of_err: "sync_of m ab bb i = Inl e \<Longrightarrow> structural e"
  by (auto simp: sync_of_def Let_def split: if_splits prod.splits)

lemma sync_loop_err: "sync_loop m as bs sl = Inl e \<Longrightarrow> structural e"
proof (induction m as bs sl rule: sync_loop.induct)
  case (3 m abase amatch alen amatches bbase bmatch blen bmatches sl)
  from "3.prems" show ?case
    using "3.IH"
    by (auto simp: bnd_eq_Inl bnd_eq_Inr split: if_splits option.splits
             dest: intersect_err sync_of_err)
qed simp_all

lemma find_sync_regions_err: "find_sync_regions gmb m = Inl e \<Longrightarrow> structural e"
  by (auto simp: find_sync_regions_def bnd_eq_Inl dest: sync_loop_err)

lemma merge_regions_stop: "snd (merge_regions gmb m) = Some e \<Longrightarrow> structural e"
  by (auto simp: merge_regions_def split: sum.splits
           dest: find_sync_regions_err regions_loop_stop)

lemma front_loop_err: "front_loop m a1 b1 alen blen ii = Inl e \<Longrightarrow> e = IndexError"
proof (induction m a1 b1 alen blen ii rule: front_loop.induct)
  case (1 m a1 b1 alen blen ii)
  from "1.prems" show ?case
    apply (subst (asm) front_loop.simps)
    using "1.IH"
    by (auto simp: getitem_def split: if_splits sum.splits)
qed

lemma end_loop_err: "end_loop m a2 b2 alen blen ii = Inl e \<Longrightarrow> e = IndexError"
proof (induction m a2 b2 alen blen ii rule: end_loop.induct)
  case (1 m a2 b2 alen blen ii)
  from "1.prems" show ?case
    apply (subst (asm) end_loop.simps)
    using "1.IH"
    by (auto simp: getitem_def split: if_splits sum.splits)
qed

lemma minimize_region_err: "minimize_region m r = Inl e \<Longrightarrow> e = IndexError"
  by (cases r) (auto simp: Let_def bnd_eq_Inl dest: front_loop_err end_loop_err)

lemma minimize_loop_stop:
  "snd (minimize_loop m rs stop) = Some e \<Longrightarrow> e = IndexError \<or> stop = Some e"
  by (induction rs) (auto split: sum.splits dest: minimize_region_err)

lemma minimize_stop:
  "snd (minimize m g) = Some e \<Longrightarrow> e = IndexError \<or> snd g = Some e"
  by (auto simp: minimize_def dest: minimize_loop_stop)

lemma getitems_err: "getitems xs idx = Inl e \<Longrightarrow> e = IndexError"
  by (induction idx) (auto simp: bnd_eq_Inl getitem_def split: if_splits)

lemma yield_range_err: "yield_range xs lo hi = Inl e \<Longrightarrow> e = IndexError"
  by (auto simp: yield_range_def bnd_eq_Inl dest: getitems_err)

lemma show_conflict_err:
  "show_conflict m args nl z1 z2 a1 a2 b1 b2 st = Inl e \<Longrightarrow> e = IndexError"
  by (auto simp: show_conflict_def bnd_eq_Inl split: if_splits dest: yield_range_err)

lemma render_region_err:
  "render_region tw m args nl t st = Inl e \<Longrightarrow>
   e = IndexError
   \<or> (e = CantShowWordConflicts \<and> self_wordmerge m = enforced \<and> is_conflict t)
   \<or> (self_wordmerge m = ondemand \<and> (\<exists>z a b. tw z a b = Inl e))"
  by (cases t)
     (auto simp: bnd_eq_Inl split: if_splits dest: yield_range_err show_conflict_err)

lemma render_err:
  "render tw m args nl rs stop st = Inl e \<Longrightarrow>
   e = IndexError \<or> stop = Some e
   \<or> (e = CantShowWordConflicts \<and> self_wordmerge m = enforced \<and> (\<exists>t \<in> set rs. is_conflict t))
   \<or> (self_wordmerge m = ondemand \<and> (\<exists>z a b. tw z a b = Inl e))"
proof (induction rs arbitrary: st)
  case Nil
  then show ?case by (auto split: option.splits)
next
  case (Cons t ts)
  from Cons.prems consider
    (a) "render_region tw m args nl t st = Inl e"
    | (b) s1 where "render tw m args nl ts stop s1 = Inl e"
    by (auto simp: bnd_eq_Inl)
  then show ?case
  proof cases
    case a
    from render_region_err[OF a] show ?thesis by auto
  next
    case b
    from Cons.IH[OF b] show ?thesis by auto
  qed
qed

lemma merge_lines_with_err:
  "merge_lines_with tw gmb m args = Inl e \<Longrightarrow>
   structural e
   \<or> (e = CantShowWordConflicts \<and> self_wordmerge m = enforced)
   \<or> (self_wordmerge m = ondemand \<and> (\<exists>z a b. tw z a b = Inl e))"
  unfolding merge_lines_with_def Let_def
  by (auto dest!: render_err minimize_stop merge_regions_stop split: if_splits)

lemma trywordmerge_err:
  "trywordmerge (Suc depth) gmb z a b = Inl e \<Longrightarrow> structural e"
proof -
  assume t: "trywordmerge (Suc depth) gmb z a b = Inl e"
  let ?m = "Merge3Text_init z a b enforced"
  have mode: "self_wordmerge ?m = enforced" by (simp add: Merge3Text_init_def)
  from t have i: "merge_lines_with (trywordmerge depth gmb) gmb ?m default_args = Inl e"
    and ne: "e \<noteq> CantShowWordConflicts"
    by (auto simp: Let_def split: sum.splits if_splits)
  from merge_lines_with_err[OF i] mode ne show ?thesis by auto
qed

lemma render_region_enforced:
  "self_wordmerge m = enforced \<Longrightarrow>
   render_region tw m args nl t st = render_region tw' m args nl t st"
  by (cases t) auto

lemma render_enforced:
  "self_wordmerge m = enforced \<Longrightarrow>
   render tw m args nl rs stop st = render tw' m args nl rs stop st"
  by (induction rs arbitrary: st) (auto simp: render_region_enforced[of m tw _ _ _ _ tw'])

lemma merge_lines_with_enforced:
  "self_wordmerge m = enforced \<Longrightarrow>
   merge_lines_with tw gmb m args = merge_lines_with tw' gmb m args"
  unfolding merge_lines_with_def Let_def
  by (simp add: render_enforced[of m tw _ _ _ _ _ tw'])

lemma trywordmerge_depth:
  "trywordmerge (Suc depth) gmb = trywordmerge (Suc 0) gmb"
proof (intro ext)
  fix z a b
  have mode: "self_wordmerge (Merge3Text_init z a b enforced) = enforced"
    by (simp add: Merge3Text_init_def)
  show "trywordmerge (Suc depth) gmb z a b = trywordmerge (Suc 0) gmb z a b"
    by (simp add: Let_def
          merge_lines_with_enforced[OF mode, of "trywordmerge depth gmb" gmb _ "trywordmerge 0 gmb"])
qed


section \<open>The classifier's final else\<close>

text \<open>
  Claim C4: in the classifier, a gap with \<open>a[ia:am] = base[iz:zm]\<close> and
  \<open>b[ib:bm] = base[iz:zm]\<close> has \<open>a[ia:am] = b[ib:bm]\<close>, so the final \<^verbatim>\<open>else\<close> is
  never reached: neither one classification nor the whole of \<^verbatim>\<open>merge_regions\<close> raises
  its AssertionError.
\<close>

theorem classifier_assertion_unreachable:
  "(compare_range (self_a m) ia am (self_base m) iz zm = Inr True \<and>
    compare_range (self_b m) ib bm (self_base m) iz zm = Inr True
      \<longrightarrow> compare_range (self_a m) ia am (self_b m) ib bm = Inr True)
   \<and> classify m iz zm ia am ib bm
       \<noteq> Inl (AssertionError (Message ''can't handle a=b=base but unmatched''))
   \<and> snd (merge_regions gmb m)
       \<noteq> Some (AssertionError (Message ''can't handle a=b=base but unmatched''))"
proof (intro conjI impI)
  assume "compare_range (self_a m) ia am (self_base m) iz zm = Inr True \<and>
    compare_range (self_b m) ib bm (self_base m) iz zm = Inr True"
  then show "compare_range (self_a m) ia am (self_b m) ib bm = Inr True"
    using compare_range_trans by blast
next
  show "classify m iz zm ia am ib bm
       \<noteq> Inl (AssertionError (Message ''can't handle a=b=base but unmatched''))"
    using classify_err[of m iz zm ia am ib bm] by auto
next
  show "snd (merge_regions gmb m)
       \<noteq> Some (AssertionError (Message ''can't handle a=b=base but unmatched''))"
    using merge_regions_stop[of gmb m] by fastforce
qed

theorem classifier_assertion_unreachable_witness:
  "compare_range [''x\<newline>'', ''p\<newline>''] 1 2 [''p\<newline>''] 0 1 = Inr True \<and>
   compare_range [''p\<newline>'', ''y\<newline>''] 0 1 [''p\<newline>''] 0 1 = Inr True \<and>
   compare_range [''x\<newline>'', ''p\<newline>''] 1 2 [''p\<newline>'', ''y\<newline>''] 0 1 = Inr True"
proof -
  let ?m = "Merge3Text_init ''p\<newline>'' ''x\<newline>p\<newline>'' ''p\<newline>y\<newline>'' disabled"
  have m: "self_a ?m = [''x\<newline>'', ''p\<newline>'']" "self_base ?m = [''p\<newline>'']"
    "self_b ?m = [''p\<newline>'', ''y\<newline>'']"
    by (simp_all add: Merge3Text_init_def splitnewlines_def)
  have 1: "compare_range (self_a ?m) 1 2 (self_base ?m) 0 1 = Inr True" by code_simp
  have 2: "compare_range (self_b ?m) 0 1 (self_base ?m) 0 1 = Inr True" by code_simp
  from classifier_assertion_unreachable[of ?m 1 2 0 1 0 1] 1 2
  have "compare_range (self_a ?m) 1 2 (self_b ?m) 0 1 = Inr True" by blast
  with 1 2 show ?thesis unfolding m by simp
qed

section \<open>The sync invariant\<close>

lemma sync_of_invariant:
  "sync_of m ab bb (intbase, intend) = Inr s \<Longrightarrow> intbase \<le> intend \<Longrightarrow> sync_invariant m s"
  by (auto simp: sync_of_def sync_invariant_def Let_def split: if_splits prod.splits)

lemma intersect_ordered: "intersect ra rb = Inr (Some (lo, hi)) \<Longrightarrow> lo < hi"
  by (auto simp: intersect_def Let_def split: if_splits)

lemma sync_loop_invariant:
  "sync_loop m as bs sl = Inr r \<Longrightarrow> \<forall>s \<in> set sl. sync_invariant m s
   \<Longrightarrow> \<forall>s \<in> set r. sync_invariant m s"
proof (induction m as bs sl arbitrary: r rule: sync_loop.induct)
  case (3 m abase amatch alen amatches bbase bmatch blen bmatches sl)
  from "3.prems"(1) obtain i sl' where
    i: "intersect (abase, abase + alen) (bbase, bbase + blen) = Inr i" and
    sl': "(case i of None \<Rightarrow> Inr sl
            | Some r \<Rightarrow> bnd (sync_of m (abase, amatch, alen) (bbase, bmatch, blen) r)
                (\<lambda>s. Inr (sl @ [s]))) = Inr sl'" and
    rest: "(if abase + alen < bbase + blen
            then sync_loop m amatches ((bbase, bmatch, blen) # bmatches) sl'
            else sync_loop m ((abase, amatch, alen) # amatches) bmatches sl') = Inr r"
    by (auto simp: bnd_eq_Inr)
  have inv': "\<forall>s \<in> set sl'. sync_invariant m s"
  proof (cases i)
    case None
    then show ?thesis using sl' "3.prems"(2) by simp
  next
    case (Some p)
    obtain lo hi where p: "p = (lo, hi)" by (cases p)
    from Some p sl' obtain s where
      s: "sync_of m (abase, amatch, alen) (bbase, bmatch, blen) (lo, hi) = Inr s"
      and e: "sl' = sl @ [s]"
      by (auto simp: bnd_eq_Inr)
    from intersect_ordered i Some p have "lo \<le> hi" by fastforce
    from sync_of_invariant[OF s this] e "3.prems"(2) show ?thesis by simp
  qed
  show ?case
  proof (cases "abase + alen < bbase + blen")
    case True
    with rest have "sync_loop m amatches ((bbase, bmatch, blen) # bmatches) sl' = Inr r" by simp
    from "3.IH"(1)[OF True this inv'] show ?thesis .
  next
    case False
    with rest have "sync_loop m ((abase, amatch, alen) # amatches) bmatches sl' = Inr r" by simp
    from "3.IH"(2)[OF False this inv'] show ?thesis .
  qed
qed simp_all

text \<open>
  Claim C5: every sync region that \<^verbatim>\<open>find_sync_regions\<close> returns has
  \<open>base[z1:z2] = a[a1:a2] = b[b1:b2]\<close> and \<open>z2 - z1 = a2 - a1 = b2 - b1\<close>, and the last
  element of the list is the zero-length region at the ends of the three sequences.
\<close>

theorem sync_regions_agree:
  assumes "find_sync_regions gmb m = Inr sl"
  shows "(\<forall>s \<in> set sl. sync_invariant m s) \<and> sl \<noteq> [] \<and>
         last sl = (length (self_base m), length (self_base m),
                    length (self_a m), length (self_a m),
                    length (self_b m), length (self_b m))"
proof -
  from assms obtain r where
    r: "sync_loop m (amatches_of gmb m) (bmatches_of gmb m) [] = Inr r"
    and sl: "sl = r @ [end_sync m]"
    by (auto simp: find_sync_regions_def bnd_eq_Inr)
  from sync_loop_invariant[OF r] have "\<forall>s \<in> set r. sync_invariant m s" by simp
  moreover have "sync_invariant m (end_sync m)"
    by (simp add: sync_invariant_def end_sync_def pyslice_def)
  ultimately show ?thesis using sl by (auto simp: end_sync_def)
qed


theorem sync_regions_agree_witness:
  "find_sync_regions lcs_blocks
     (Merge3Text_init ''a\<newline>b\<newline>'' ''a\<newline>B\<newline>'' ''a\<newline>c\<newline>'' disabled)
     = Inr [(0, 1, 0, 1, 0, 1), (2, 2, 2, 2, 2, 2)]
   \<and> sync_invariant
       (Merge3Text_init ''a\<newline>b\<newline>'' ''a\<newline>B\<newline>'' ''a\<newline>c\<newline>'' disabled)
       (0, 1, 0, 1, 0, 1)"
proof -
  let ?m = "Merge3Text_init ''a\<newline>b\<newline>'' ''a\<newline>B\<newline>'' ''a\<newline>c\<newline>'' disabled"
  have e: "find_sync_regions lcs_blocks ?m = Inr [(0, 1, 0, 1, 0, 1), (2, 2, 2, 2, 2, 2)]"
    by code_simp
  from sync_regions_agree[OF e] e show ?thesis by simp
qed

section \<open>The depth of the word merge\<close>

text \<open>
  Claim C8: the recursion of the word merge has depth at most two. One nested
  \<^verbatim>\<open>trywordmerge\<close> frame is all a merge ever uses: a larger budget changes no result and
  RecursionError never shows. A merge in enforced mode uses none: it raises
  CantShowWordConflicts at a conflict region (no force side) whatever the fallback is.
\<close>

theorem word_merge_depth:
  "trywordmerge (Suc depth) gmb z a b = trywordmerge (Suc 0) gmb z a b
   \<and> merge_lines (Suc depth) gmb m args = merge_lines (Suc 0) gmb m args
   \<and> merge_lines (Suc depth) gmb m args \<noteq> Inl RecursionError
   \<and> (self_wordmerge m = enforced \<longrightarrow>
        merge_lines 0 gmb m args = merge_lines (Suc depth) gmb m args
        \<and> (localorother args \<noteq> Some ''local'' \<and> localorother args \<noteq> Some ''other''
             \<longrightarrow> render_region tw m args nl (Conflict z1 z2 a1 a2 b1 b2) st
                   = Inl CantShowWordConflicts))"
proof (intro conjI impI)
  show "trywordmerge (Suc depth) gmb z a b = trywordmerge (Suc 0) gmb z a b"
    by (simp only: trywordmerge_depth[of depth gmb])
  show "merge_lines (Suc depth) gmb m args = merge_lines (Suc 0) gmb m args"
    by (simp only: merge_lines_def trywordmerge_depth[of depth gmb])
  show "merge_lines (Suc depth) gmb m args \<noteq> Inl RecursionError"
    using merge_lines_with_err[of "trywordmerge (Suc depth) gmb" gmb m args RecursionError]
      trywordmerge_err[of depth gmb _ _ _ RecursionError]
    by (auto simp: merge_lines_def)
  show "merge_lines 0 gmb m args = merge_lines (Suc depth) gmb m args"
    if "self_wordmerge m = enforced"
    unfolding merge_lines_def by (rule merge_lines_with_enforced[OF that])
  show "render_region tw m args nl (Conflict z1 z2 a1 a2 b1 b2) st = Inl CantShowWordConflicts"
    if "self_wordmerge m = enforced"
      and "localorother args \<noteq> Some ''local'' \<and> localorother args \<noteq> Some ''other''"
    using that by simp
qed

theorem word_merge_depth_witness:
  "merge_lines 0 lcs_blocks (Merge3Text_init ''one'' ''two'' ''three'' enforced) default_args
     = Inl CantShowWordConflicts
   \<and> merge_lines (Suc 5) lcs_blocks (Merge3Text_init ''one'' ''two'' ''three'' enforced) default_args
     = Inl CantShowWordConflicts"
proof -
  let ?m = "Merge3Text_init ''one'' ''two'' ''three'' enforced"
  have 1: "merge_lines 0 lcs_blocks ?m default_args = Inl CantShowWordConflicts"
    by code_simp
  have 2: "self_wordmerge ?m = enforced" by (simp add: Merge3Text_init_def)
  from word_merge_depth[of 5 lcs_blocks _ _ _ ?m default_args] 1 2 show ?thesis by simp
qed

section \<open>A side that did not change\<close>

lemma concat_splitlines_from: "concat (splitlines_from cur s) = cur @ s"
  by (induction cur s rule: splitlines_from.induct) (auto split: list.splits)

lemma concat_splitnewlines: "concat (splitnewlines s) = s"
  by (simp add: splitnewlines_def concat_splitlines_from)

lemma concat_splitwords: "concat (splitwords s) = s"
  by (induction s rule: splitwords.induct) auto

lemma concat_foldwords: "concat (foldwords ws buf res) = concat res @ concat buf @ concat ws"
  by (induction ws buf res rule: foldwords.induct) auto

lemma concat_splitwordswithoutemptylines: "concat (splitwordswithoutemptylines s) = s"
  by (simp add: splitwordswithoutemptylines_def concat_foldwords concat_splitwords)

lemma getitems_map: "\<forall>i \<in> set idx. i < length xs \<Longrightarrow> getitems xs idx = Inr (map (nth xs) idx)"
  by (induction idx) (auto simp: getitem_def)

lemma pyslice_map_nth: "hi \<le> length xs \<Longrightarrow> pyslice xs lo hi = map (nth xs) [lo..<hi]"
  unfolding pyslice_def
  by (rule nth_equalityI) auto

lemma getitems_range: "hi \<le> length xs \<Longrightarrow> getitems xs [lo..<hi] = Inr (pyslice xs lo hi)"
  by (simp add: getitems_map pyslice_map_nth)

lemma yield_range_in: "hi \<le> length xs \<Longrightarrow> yield_range xs lo hi = Inr (map Line (pyslice xs lo hi))"
  by (simp add: yield_range_def getitems_range)

lemma compare_loop_total:
  "\<forall>p \<in> set ps. fst p < length a \<and> snd p < length b \<Longrightarrow>
   compare_loop a b ps = Inr (\<forall>p \<in> set ps. a ! fst p = b ! snd p)"
  by (induction ps) (auto simp: getitem_def)

lemma length_pyslice: "hi \<le> length xs \<Longrightarrow> length (pyslice xs lo hi) = hi - lo"
  by (simp add: pyslice_def)

lemma compare_range_slices:
  assumes "i \<le> j" "j \<le> length a" "k \<le> l" "l \<le> length b"
  shows "compare_range a i j b k l = Inr (pyslice a i j = pyslice b k l)"
proof (cases "j - i = l - k")
  case False
  then have "pyslice a i j \<noteq> pyslice b k l"
    using assms length_pyslice[of j a i] length_pyslice[of l b k] by metis
  moreover have "int j - int i \<noteq> int l - int k" using False assms by linarith
  ultimately show ?thesis by (simp add: compare_range_def)
next
  case True
  have rng: "\<forall>p \<in> set (zip [i..<j] [k..<l]). fst p < length a \<and> snd p < length b"
    using assms by (auto simp: set_zip_upt)
  have "(\<forall>p \<in> set (zip [i..<j] [k..<l]). a ! fst p = b ! snd p)
          \<longleftrightarrow> pyslice a i j = pyslice b k l"
  proof
    assume h: "\<forall>p \<in> set (zip [i..<j] [k..<l]). a ! fst p = b ! snd p"
    show "pyslice a i j = pyslice b k l"
      unfolding pyslice_def
    proof (rule nth_equalityI)
      show "length (take (j - i) (drop i a)) = length (take (l - k) (drop k b))"
        using True assms by simp
    next
      fix t assume "t < length (take (j - i) (drop i a))"
      then have t: "t < j - i" by simp
      then have "(i + t, k + t) \<in> set (zip [i..<j] [k..<l])"
        using True by (auto simp: set_zip_upt)
      with h have "a ! (i + t) = b ! (k + t)" by fastforce
      then show "take (j - i) (drop i a) ! t = take (l - k) (drop k b) ! t"
        using t True assms by simp
    qed
  next
    assume e: "pyslice a i j = pyslice b k l"
    show "\<forall>p \<in> set (zip [i..<j] [k..<l]). a ! fst p = b ! snd p"
    proof
      fix p assume "p \<in> set (zip [i..<j] [k..<l])"
      then obtain t where p: "p = (i + t, k + t)" and t: "t < j - i" "t < l - k"
        by (auto simp: set_zip_upt)
      from e have "pyslice a i j ! t = pyslice b k l ! t" by simp
      then show "a ! fst p = b ! snd p"
        using p t assms by (simp add: pyslice_def)
    qed
  qed
  moreover have "int j - int i = int l - int k" using True assms by linarith
  ultimately show ?thesis
    using compare_loop_total[OF rng] by (simp add: compare_range_def)
qed


lemma pyslice_drop: "lo \<le> hi \<Longrightarrow> pyslice xs lo hi @ drop hi xs = drop lo xs"
proof -
  assume "lo \<le> hi"
  then have "drop hi xs = drop (hi - lo) (drop lo xs)" by simp
  then show ?thesis unfolding pyslice_def by (metis append_take_drop_id)
qed

lemma pyslice_empty [simp]: "pyslice xs lo lo = []"
  by (simp add: pyslice_def)

lemma pyslice_to_end: "pyslice xs lo (length xs) = drop lo xs"
  by (simp add: pyslice_def)

lemma blocks_chain_weaken:
  "blocks_chain xs ys p q bs \<Longrightarrow> p0 \<le> p \<Longrightarrow> q0 \<le> q \<Longrightarrow> blocks_chain xs ys p0 q0 bs"
  by (cases bs) auto

lemma classify_a_unchanged:
  assumes "self_a m = self_base m"
    and "p0 \<le> p" "p \<le> length (self_base m)" "q0 \<le> q" "q \<le> length (self_b m)"
  shows "\<exists>r. classify m p0 p p0 p q0 q = Inr r \<and> plain_region m r \<and>
             region_lines m r = pyslice (self_b m) q0 q"
proof -
  have ea: "compare_range (self_a m) p0 p (self_base m) p0 p = Inr True"
    using assms by (simp add: compare_range_slices)
  have eb: "compare_range (self_b m) q0 q (self_base m) p0 p
              = Inr (pyslice (self_b m) q0 q = pyslice (self_base m) p0 p)"
    using assms by (simp add: compare_range_slices)
  have sm: "compare_range (self_a m) p0 p (self_b m) q0 q
              = Inr (pyslice (self_base m) p0 p = pyslice (self_b m) q0 q)"
    using assms by (simp add: compare_range_slices)
  show ?thesis
    unfolding classify_def ea eb sm using assms by auto
qed

lemma classify_b_unchanged:
  assumes "self_b m = self_base m"
    and "p0 \<le> p" "p \<le> length (self_base m)" "q0 \<le> q" "q \<le> length (self_a m)"
  shows "\<exists>r. classify m p0 p q0 q p0 p = Inr r \<and> plain_region m r \<and>
             region_lines m r = pyslice (self_a m) q0 q"
proof -
  have eb: "compare_range (self_b m) p0 p (self_base m) p0 p = Inr True"
    using assms by (simp add: compare_range_slices)
  have ea: "compare_range (self_a m) q0 q (self_base m) p0 p
              = Inr (pyslice (self_a m) q0 q = pyslice (self_base m) p0 p)"
    using assms by (simp add: compare_range_slices)
  have sm: "compare_range (self_a m) q0 q (self_b m) p0 p
              = Inr (pyslice (self_a m) q0 q = pyslice (self_base m) p0 p)"
    using assms by (simp add: compare_range_slices)
  show ?thesis
    unfolding classify_def ea eb sm using assms by auto
qed

lemma sync_loop_a_identity:
  assumes "self_a m = self_base m" and "n = length (self_base m)"
  shows "blocks_chain (self_base m) (self_b m) p0 q0 bs \<Longrightarrow>
         sync_loop m ((0, 0, n) # arest) bs sl = Inr (sl @ syncs_a bs)"
proof (induction bs arbitrary: p0 q0 sl)
  case Nil
  then show ?case by simp
next
  case (Cons blk bs)
  obtain p q l where blk: "blk = (p, q, l)" by (cases blk)
  from Cons.prems blk have v: "p + l \<le> n" "q + l \<le> length (self_b m)"
    "pyslice (self_base m) p (p + l) = pyslice (self_b m) q (q + l)"
    and ch: "blocks_chain (self_base m) (self_b m) (p + l) (q + l) bs"
    using assms by auto
  have i: "intersect (0, 0 + n) (p, p + l) = Inr (if l > 0 then Some (p, p + l) else None)"
    using v by (auto simp: intersect_def Let_def max_def min_def)
  have s: "sync_of m (0, 0, n) (p, q, l) (p, p + l) = Inr (p, p + l, p, p + l, q, q + l)"
    using v assms by (simp add: sync_of_def Let_def)
  have nl: "\<not> 0 + n < p + l" using v by simp
  show ?case
    unfolding blk sync_loop.simps i
    using s nl Cons.IH[OF ch] by simp
qed

lemma syncs_b_at_end:
  "blocks_chain xs ys (length xs) q0 bs \<Longrightarrow> syncs_b bs = []"
proof (induction bs arbitrary: q0)
  case Nil
  then show ?case by simp
next
  case (Cons blk bs)
  obtain p q l where blk: "blk = (p, q, l)" by (cases blk)
  from Cons.prems blk have l: "l = 0" and p: "p = length xs"
    and ch: "blocks_chain xs ys (p + l) (q + l) bs" by auto
  from ch l p have "blocks_chain xs ys (length xs) q bs" by simp
  from Cons.IH[OF this] l blk show ?case by simp
qed

lemma sync_loop_b_identity:
  assumes "self_b m = self_base m" and "n = length (self_base m)"
  shows "blocks_chain (self_base m) (self_a m) p0 q0 as \<Longrightarrow>
         sync_loop m as (identity_blocks n) sl = Inr (sl @ syncs_b as)"
proof (induction as arbitrary: p0 q0 sl)
  case Nil
  then show ?case by simp
next
  case (Cons blk as)
  obtain p q l where blk: "blk = (p, q, l)" by (cases blk)
  from Cons.prems blk have v: "p + l \<le> n" "q + l \<le> length (self_a m)"
    "pyslice (self_base m) p (p + l) = pyslice (self_a m) q (q + l)"
    and ch: "blocks_chain (self_base m) (self_a m) (p + l) (q + l) as"
    using assms by auto
  have s: "sync_of m (p, q, l) (0, 0, n) (p, p + l) = Inr (p, p + l, q, q + l, p, p + l)"
    using v assms by (simp add: sync_of_def Let_def)
  show ?case
  proof (cases "n = 0")
    case True
    with v have l0: "l = 0" "p = 0" by auto
    have i: "intersect (p, p + l) (0, 0 + 0) = Inr None"
      using l0 by (simp add: intersect_def)
    from ch l0 True assms have "syncs_b as = []"
      using syncs_b_at_end[of "self_base m" "self_a m" q as] by simp
    then show ?thesis
      unfolding blk identity_blocks_def using True l0 i by simp
  next
    case False
    have i: "intersect (p, p + l) (0, 0 + n) = Inr (if l > 0 then Some (p, p + l) else None)"
      using v by (auto simp: intersect_def Let_def max_def min_def)
    have i2: "intersect (p, p + l) (n, n + 0) = Inr None"
      using v by (auto simp: intersect_def Let_def max_def min_def)
    show ?thesis
    proof (cases "p + l < n")
      case True
      show ?thesis
      proof (cases "l > 0")
        case l: True
        from Cons.IH[OF ch, of "sl @ [(p, p + l, q, q + l, p, p + l)]"]
        show ?thesis
          unfolding blk using False True i s l
          by (simp add: identity_blocks_def)
      next
        case l: False
        from Cons.IH[OF ch, of sl]
        show ?thesis
          unfolding blk using False True i l
          by (simp add: identity_blocks_def)
      qed
    next
      case pl: False
      with v have e: "p + l = n" by simp
      from ch e assms have "syncs_b as = []"
        using syncs_b_at_end[of "self_base m" "self_a m" "q + l" as] by simp
      then show ?thesis
        unfolding blk using False pl i i2 s
        by (simp add: identity_blocks_def)
    qed
  qed
qed


lemma regions_loop_Cons:
  assumes "iz \<le> zm" "ia \<le> am" "ib \<le> bm"
    and "(if am - ia \<noteq> 0 \<or> bm - ib \<noteq> 0
          then bnd (classify m iz zm ia am ib bm) (\<lambda>r. Inr ([r], am, bm))
          else Inr ([], ia, ib)) = Inr (gap, am, bm)"
  shows "regions_loop m iz ia ib ((zm, zm + len, am, am + len, bm, bm + len) # rest)
         = yields (gap @ (if len > 0 then [Unchanged zm (zm + len)] else []))
             (regions_loop m (zm + len) (am + len) (bm + len) rest)"
  using assms(1-3) unfolding regions_loop.simps assms(4) by simp

lemma gap_a_unchanged:
  assumes "self_a m = self_base m"
    and "p0 \<le> p" "p \<le> length (self_base m)" "q0 \<le> q" "q \<le> length (self_b m)"
  shows "\<exists>gap. (if p - p0 \<noteq> 0 \<or> q - q0 \<noteq> 0
                 then bnd (classify m p0 p p0 p q0 q) (\<lambda>r. Inr ([r], p, q))
                 else Inr ([], p0, q0)) = Inr (gap, p, q)
           \<and> (\<forall>r \<in> set gap. plain_region m r)
           \<and> concat (map (region_lines m) gap) = pyslice (self_b m) q0 q"
proof (cases "p - p0 \<noteq> 0 \<or> q - q0 \<noteq> 0")
  case True
  from classify_a_unchanged[OF assms] obtain r where
    "classify m p0 p p0 p q0 q = Inr r" "plain_region m r"
    "region_lines m r = pyslice (self_b m) q0 q" by blast
  then show ?thesis using True by auto
next
  case False
  then have "p = p0" "q = q0" using assms by auto
  then show ?thesis by simp
qed

lemma gap_b_unchanged:
  assumes "self_b m = self_base m"
    and "p0 \<le> p" "p \<le> length (self_base m)" "q0 \<le> q" "q \<le> length (self_a m)"
  shows "\<exists>gap. (if q - q0 \<noteq> 0 \<or> p - p0 \<noteq> 0
                 then bnd (classify m p0 p q0 q p0 p) (\<lambda>r. Inr ([r], q, p))
                 else Inr ([], q0, p0)) = Inr (gap, q, p)
           \<and> (\<forall>r \<in> set gap. plain_region m r)
           \<and> concat (map (region_lines m) gap) = pyslice (self_a m) q0 q"
proof (cases "q - q0 \<noteq> 0 \<or> p - p0 \<noteq> 0")
  case True
  from classify_b_unchanged[OF assms] obtain r where
    "classify m p0 p q0 q p0 p = Inr r" "plain_region m r"
    "region_lines m r = pyslice (self_a m) q0 q" by blast
  then show ?thesis using True by auto
next
  case False
  then have "p = p0" "q = q0" using assms by auto
  then show ?thesis by simp
qed

lemma regions_loop_a_unchanged:
  assumes A: "self_a m = self_base m"
  shows "blocks_chain (self_base m) (self_b m) p0 q0 bs \<Longrightarrow>
         p0 \<le> length (self_base m) \<Longrightarrow> q0 \<le> length (self_b m) \<Longrightarrow>
         \<exists>rs. regions_loop m p0 p0 q0 (syncs_a bs @ [end_sync m]) = (rs, None)
              \<and> (\<forall>r \<in> set rs. plain_region m r)
              \<and> concat (map (region_lines m) rs) = drop q0 (self_b m)"
proof (induction bs arbitrary: p0 q0)
  case Nil
  let ?n = "length (self_base m)" and ?k = "length (self_b m)"
  from gap_a_unchanged[OF A Nil.prems(2) le_refl Nil.prems(3) le_refl]
  obtain gap where g: "(if ?n - p0 \<noteq> 0 \<or> ?k - q0 \<noteq> 0
                 then bnd (classify m p0 ?n p0 ?n q0 ?k) (\<lambda>r. Inr ([r], ?n, ?k))
                 else Inr ([], p0, q0)) = Inr (gap, ?n, ?k)"
    and pl: "\<forall>r \<in> set gap. plain_region m r"
    and ln: "concat (map (region_lines m) gap) = pyslice (self_b m) q0 ?k" by blast
  have "regions_loop m p0 p0 q0 ((?n, ?n + 0, ?n, ?n + 0, ?k, ?k + 0) # [])
          = yields (gap @ (if (0::nat) > 0 then [Unchanged ?n (?n + 0)] else []))
              (regions_loop m (?n + 0) (?n + 0) (?k + 0) [])"
    by (rule regions_loop_Cons[OF Nil.prems(2) Nil.prems(2) Nil.prems(3) g])
  then have "regions_loop m p0 p0 q0 (syncs_a [] @ [end_sync m]) = (gap, None)"
    by (simp add: end_sync_def A yields_def)
  then show ?case using pl ln by (auto simp: pyslice_to_end)
next
  case (Cons blk bs)
  obtain p q l where blk: "blk = (p, q, l)" by (cases blk)
  from Cons.prems(1) blk have v: "p0 \<le> p" "q0 \<le> q" "p + l \<le> length (self_base m)"
    "q + l \<le> length (self_b m)"
    "pyslice (self_base m) p (p + l) = pyslice (self_b m) q (q + l)"
    and ch: "blocks_chain (self_base m) (self_b m) (p + l) (q + l) bs"
    by auto
  show ?case
  proof (cases "l > 0")
    case False
    then have l: "l = 0" by simp
    from ch l have "blocks_chain (self_base m) (self_b m) p0 q0 bs"
      using blocks_chain_weaken[OF _ v(1) v(2)] by simp
    from Cons.IH[OF this Cons.prems(2) Cons.prems(3)] show ?thesis
      unfolding blk using l by simp
  next
    case True
    have pb: "p \<le> length (self_base m)" "q \<le> length (self_b m)" using v by auto
    from gap_a_unchanged[OF A v(1) pb(1) v(2) pb(2)]
    obtain gap where g: "(if p - p0 \<noteq> 0 \<or> q - q0 \<noteq> 0
                 then bnd (classify m p0 p p0 p q0 q) (\<lambda>r. Inr ([r], p, q))
                 else Inr ([], p0, q0)) = Inr (gap, p, q)"
      and pl: "\<forall>r \<in> set gap. plain_region m r"
      and ln: "concat (map (region_lines m) gap) = pyslice (self_b m) q0 q" by blast
    from Cons.IH[OF ch v(3) v(4)] obtain rs where
      rs: "regions_loop m (p + l) (p + l) (q + l) (syncs_a bs @ [end_sync m]) = (rs, None)"
      and prs: "\<forall>r \<in> set rs. plain_region m r"
      and lrs: "concat (map (region_lines m) rs) = drop (q + l) (self_b m)" by blast
    have "regions_loop m p0 p0 q0 ((p, p + l, p, p + l, q, q + l) # (syncs_a bs @ [end_sync m]))
          = yields (gap @ (if l > 0 then [Unchanged p (p + l)] else []))
              (regions_loop m (p + l) (p + l) (q + l) (syncs_a bs @ [end_sync m]))"
      by (rule regions_loop_Cons[OF v(1) v(1) v(2) g])
    then have e: "regions_loop m p0 p0 q0 (syncs_a (blk # bs) @ [end_sync m])
                    = (gap @ [Unchanged p (p + l)] @ rs, None)"
      unfolding blk using True rs by (simp add: yields_def)
    have "pyslice (self_b m) q0 q @ pyslice (self_b m) q (q + l) @ drop (q + l) (self_b m)
            = drop q0 (self_b m)"
      using pyslice_drop[of q "q + l" "self_b m"] pyslice_drop[of q0 q "self_b m"] v(2) by simp
    then have "concat (map (region_lines m) (gap @ [Unchanged p (p + l)] @ rs)) = drop q0 (self_b m)"
      using ln lrs v(5) by simp
    moreover have "\<forall>r \<in> set (gap @ [Unchanged p (p + l)] @ rs). plain_region m r"
      using pl prs v(3) by auto
    ultimately show ?thesis using e by blast
  qed
qed


lemma regions_loop_b_unchanged:
  assumes B: "self_b m = self_base m"
  shows "blocks_chain (self_base m) (self_a m) p0 q0 as \<Longrightarrow>
         p0 \<le> length (self_base m) \<Longrightarrow> q0 \<le> length (self_a m) \<Longrightarrow>
         \<exists>rs. regions_loop m p0 q0 p0 (syncs_b as @ [end_sync m]) = (rs, None)
              \<and> (\<forall>r \<in> set rs. plain_region m r)
              \<and> concat (map (region_lines m) rs) = drop q0 (self_a m)"
proof (induction as arbitrary: p0 q0)
  case Nil
  let ?n = "length (self_base m)" and ?k = "length (self_a m)"
  from gap_b_unchanged[OF B Nil.prems(2) le_refl Nil.prems(3) le_refl]
  obtain gap where g: "(if ?k - q0 \<noteq> 0 \<or> ?n - p0 \<noteq> 0
                 then bnd (classify m p0 ?n q0 ?k p0 ?n) (\<lambda>r. Inr ([r], ?k, ?n))
                 else Inr ([], q0, p0)) = Inr (gap, ?k, ?n)"
    and pl: "\<forall>r \<in> set gap. plain_region m r"
    and ln: "concat (map (region_lines m) gap) = pyslice (self_a m) q0 ?k" by blast
  have "regions_loop m p0 q0 p0 ((?n, ?n + 0, ?k, ?k + 0, ?n, ?n + 0) # [])
          = yields (gap @ (if (0::nat) > 0 then [Unchanged ?n (?n + 0)] else []))
              (regions_loop m (?n + 0) (?k + 0) (?n + 0) [])"
    by (rule regions_loop_Cons[OF Nil.prems(2) Nil.prems(3) Nil.prems(2) g])
  then have "regions_loop m p0 q0 p0 (syncs_b [] @ [end_sync m]) = (gap, None)"
    by (simp add: end_sync_def B yields_def)
  then show ?case using pl ln by (auto simp: pyslice_to_end)
next
  case (Cons blk as)
  obtain p q l where blk: "blk = (p, q, l)" by (cases blk)
  from Cons.prems(1) blk have v: "p0 \<le> p" "q0 \<le> q" "p + l \<le> length (self_base m)"
    "q + l \<le> length (self_a m)"
    "pyslice (self_base m) p (p + l) = pyslice (self_a m) q (q + l)"
    and ch: "blocks_chain (self_base m) (self_a m) (p + l) (q + l) as"
    by auto
  show ?case
  proof (cases "l > 0")
    case False
    then have l: "l = 0" by simp
    from ch l have "blocks_chain (self_base m) (self_a m) p0 q0 as"
      using blocks_chain_weaken[OF _ v(1) v(2)] by simp
    from Cons.IH[OF this Cons.prems(2) Cons.prems(3)] show ?thesis
      unfolding blk using l by simp
  next
    case True
    have pb: "p \<le> length (self_base m)" "q \<le> length (self_a m)" using v by auto
    from gap_b_unchanged[OF B v(1) pb(1) v(2) pb(2)]
    obtain gap where g: "(if q - q0 \<noteq> 0 \<or> p - p0 \<noteq> 0
                 then bnd (classify m p0 p q0 q p0 p) (\<lambda>r. Inr ([r], q, p))
                 else Inr ([], q0, p0)) = Inr (gap, q, p)"
      and pl: "\<forall>r \<in> set gap. plain_region m r"
      and ln: "concat (map (region_lines m) gap) = pyslice (self_a m) q0 q" by blast
    from Cons.IH[OF ch v(3) v(4)] obtain rs where
      rs: "regions_loop m (p + l) (q + l) (p + l) (syncs_b as @ [end_sync m]) = (rs, None)"
      and prs: "\<forall>r \<in> set rs. plain_region m r"
      and lrs: "concat (map (region_lines m) rs) = drop (q + l) (self_a m)" by blast
    have "regions_loop m p0 q0 p0 ((p, p + l, q, q + l, p, p + l) # (syncs_b as @ [end_sync m]))
          = yields (gap @ (if l > 0 then [Unchanged p (p + l)] else []))
              (regions_loop m (p + l) (q + l) (p + l) (syncs_b as @ [end_sync m]))"
      by (rule regions_loop_Cons[OF v(1) v(2) v(1) g])
    then have e: "regions_loop m p0 q0 p0 (syncs_b (blk # as) @ [end_sync m])
                    = (gap @ [Unchanged p (p + l)] @ rs, None)"
      unfolding blk using True rs by (simp add: yields_def)
    have "pyslice (self_a m) q0 q @ pyslice (self_a m) q (q + l) @ drop (q + l) (self_a m)
            = drop q0 (self_a m)"
      using pyslice_drop[of q "q + l" "self_a m"] pyslice_drop[of q0 q "self_a m"] v(2) by simp
    then have "concat (map (region_lines m) (gap @ [Unchanged p (p + l)] @ rs)) = drop q0 (self_a m)"
      using ln lrs v(5) by simp
    moreover have "\<forall>r \<in> set (gap @ [Unchanged p (p + l)] @ rs). plain_region m r"
      using pl prs v(3) by auto
    ultimately show ?thesis using e by blast
  qed
qed

lemma render_region_plain:
  "plain_region m r \<Longrightarrow>
   render_region tw m args nl r st = Inr (map Line (region_lines m r), st)"
  by (cases r) (simp_all add: yield_range_in)

lemma render_plain:
  "\<forall>r \<in> set rs. plain_region m r \<Longrightarrow>
   render tw m args nl rs None st = Inr (map Line (concat (map (region_lines m) rs)), st)"
  by (induction rs) (simp_all add: render_region_plain)

lemma minimize_region_plain: "plain_region m r \<Longrightarrow> minimize_region m r = Inr [r]"
  by (cases r) simp_all

lemma minimize_loop_plain:
  "\<forall>r \<in> set rs. plain_region m r \<Longrightarrow> minimize_loop m rs stop = (rs, stop)"
  by (induction rs) (simp_all add: minimize_region_plain yields_def)

lemma merge_lines_with_plain:
  assumes "merge_regions gmb m = (rs, None)" and "\<forall>r \<in> set rs. plain_region m r"
  shows "merge_lines_with tw gmb m args
         = Inr (map Line (concat (map (region_lines m) rs)),
                \<lparr> conflicts = False, conflictscount = 0 \<rparr>)"
  unfolding merge_lines_with_def Let_def
  using assms by (simp add: minimize_def minimize_loop_plain render_plain)

lemma joined_lines: "joined (map Line xs) = concat xs"
  by (simp add: joined_def comp_def)

lemma concat_tokens:
  "concat (self_base (Merge3Text_init z a b mode)) = z"
  "concat (self_a (Merge3Text_init z a b mode)) = a"
  "concat (self_b (Merge3Text_init z a b mode)) = b"
  by (simp_all add: Merge3Text_init_def Let_def concat_splitnewlines
        concat_splitwordswithoutemptylines)

lemma merge_a_unchanged:
  assumes "self_a m = self_base m"
    and "amatches_of gmb m = identity_blocks (length (self_base m))"
    and "blocks_chain (self_base m) (self_b m) 0 0 (bmatches_of gmb m)"
  shows "merge_lines_with tw gmb m args
         = Inr (map Line (self_b m), \<lparr> conflicts = False, conflictscount = 0 \<rparr>)"
proof -
  obtain rest where a: "amatches_of gmb m = (0, 0, length (self_base m)) # rest"
    using assms(2) by (auto simp: identity_blocks_def split: if_splits)
  have "sync_loop m (amatches_of gmb m) (bmatches_of gmb m) []
          = Inr ([] @ syncs_a (bmatches_of gmb m))"
    unfolding a by (rule sync_loop_a_identity[OF assms(1) refl assms(3)])
  then have f: "find_sync_regions gmb m = Inr (syncs_a (bmatches_of gmb m) @ [end_sync m])"
    by (simp add: find_sync_regions_def)
  from regions_loop_a_unchanged[OF assms(1) assms(3)] obtain rs where
    "regions_loop m 0 0 0 (syncs_a (bmatches_of gmb m) @ [end_sync m]) = (rs, None)"
    "\<forall>r \<in> set rs. plain_region m r"
    "concat (map (region_lines m) rs) = drop 0 (self_b m)" by auto
  with f merge_lines_with_plain[of gmb m rs tw args] show ?thesis
    by (simp add: merge_regions_def)
qed

lemma merge_b_unchanged:
  assumes "self_b m = self_base m"
    and "bmatches_of gmb m = identity_blocks (length (self_base m))"
    and "blocks_chain (self_base m) (self_a m) 0 0 (amatches_of gmb m)"
  shows "merge_lines_with tw gmb m args
         = Inr (map Line (self_a m), \<lparr> conflicts = False, conflictscount = 0 \<rparr>)"
proof -
  have "sync_loop m (amatches_of gmb m) (bmatches_of gmb m) []
          = Inr ([] @ syncs_b (amatches_of gmb m))"
    unfolding assms(2) by (rule sync_loop_b_identity[OF assms(1) refl assms(3)])
  then have f: "find_sync_regions gmb m = Inr (syncs_b (amatches_of gmb m) @ [end_sync m])"
    by (simp add: find_sync_regions_def)
  from regions_loop_b_unchanged[OF assms(1) assms(3)] obtain rs where
    "regions_loop m 0 0 0 (syncs_b (amatches_of gmb m) @ [end_sync m]) = (rs, None)"
    "\<forall>r \<in> set rs. plain_region m r"
    "concat (map (region_lines m) rs) = drop 0 (self_a m)" by auto
  with f merge_lines_with_plain[of gmb m rs tw args] show ?thesis
    by (simp add: merge_regions_def)
qed

text \<open>
  Claim C1: if \<open>a = base\<close> the joined output of \<^verbatim>\<open>merge_lines\<close> is \<open>b\<close> and the conflict
  count is 0, and if \<open>b = base\<close> the output is \<open>a\<close> and the count is 0; in every word merge
  mode and for every matcher that answers with the covering block for twice the same
  text and with valid matching blocks for the other pair.
\<close>

theorem merge_unchanged_side:
  assumes "m = Merge3Text_init basetext atext btext mode"
  shows "(atext = basetext
          \<and> amatches_of gmb m = identity_blocks (length (self_base m))
          \<and> matching_blocks_ok (self_base m) (self_b m) (bmatches_of gmb m)
          \<longrightarrow> (\<exists>out st. merge_lines depth gmb m args = Inr (out, st)
                 \<and> joined out = btext \<and> \<not> conflicts st \<and> conflictscount st = 0))
       \<and> (btext = basetext
          \<and> bmatches_of gmb m = identity_blocks (length (self_base m))
          \<and> matching_blocks_ok (self_base m) (self_a m) (amatches_of gmb m)
          \<longrightarrow> (\<exists>out st. merge_lines depth gmb m args = Inr (out, st)
                 \<and> joined out = atext \<and> \<not> conflicts st \<and> conflictscount st = 0))"
proof (intro conjI impI)
  assume h: "atext = basetext
          \<and> amatches_of gmb m = identity_blocks (length (self_base m))
          \<and> matching_blocks_ok (self_base m) (self_b m) (bmatches_of gmb m)"
  then have "self_a m = self_base m" using assms by (simp add: Merge3Text_init_def Let_def)
  from merge_a_unchanged[OF this, of gmb "trywordmerge depth gmb" args] h
  have "merge_lines depth gmb m args
          = Inr (map Line (self_b m), \<lparr> conflicts = False, conflictscount = 0 \<rparr>)"
    by (simp add: merge_lines_def matching_blocks_ok_def)
  moreover have "joined (map Line (self_b m)) = btext"
    unfolding assms by (simp add: joined_lines concat_tokens)
  ultimately show "\<exists>out st. merge_lines depth gmb m args = Inr (out, st)
                 \<and> joined out = btext \<and> \<not> conflicts st \<and> conflictscount st = 0"
    by simp
next
  assume h: "btext = basetext
          \<and> bmatches_of gmb m = identity_blocks (length (self_base m))
          \<and> matching_blocks_ok (self_base m) (self_a m) (amatches_of gmb m)"
  then have "self_b m = self_base m" using assms by (simp add: Merge3Text_init_def Let_def)
  from merge_b_unchanged[OF this, of gmb "trywordmerge depth gmb" args] h
  have "merge_lines depth gmb m args
          = Inr (map Line (self_a m), \<lparr> conflicts = False, conflictscount = 0 \<rparr>)"
    by (simp add: merge_lines_def matching_blocks_ok_def)
  moreover have "joined (map Line (self_a m)) = atext"
    unfolding assms by (simp add: joined_lines concat_tokens)
  ultimately show "\<exists>out st. merge_lines depth gmb m args = Inr (out, st)
                 \<and> joined out = atext \<and> \<not> conflicts st \<and> conflictscount st = 0"
    by simp
qed


theorem merge_unchanged_side_witness:
  "(\<exists>out st. merge_lines 1 lcs_blocks
       (Merge3Text_init ''a\<newline>b\<newline>'' ''a\<newline>b\<newline>'' ''a\<newline>c\<newline>'' disabled)
       default_args = Inr (out, st)
     \<and> joined out = ''a\<newline>c\<newline>'' \<and> \<not> conflicts st \<and> conflictscount st = 0)
   \<and> (\<exists>out st. merge_lines 1 lcs_blocks
       (Merge3Text_init ''a\<newline>b\<newline>'' ''x\<newline>a\<newline>b\<newline>'' ''a\<newline>b\<newline>'' disabled)
       default_args = Inr (out, st)
     \<and> joined out = ''x\<newline>a\<newline>b\<newline>'' \<and> \<not> conflicts st \<and> conflictscount st = 0)"
proof -
  let ?m1 = "Merge3Text_init ''a\<newline>b\<newline>'' ''a\<newline>b\<newline>'' ''a\<newline>c\<newline>'' disabled"
  let ?m2 = "Merge3Text_init ''a\<newline>b\<newline>'' ''x\<newline>a\<newline>b\<newline>'' ''a\<newline>b\<newline>'' disabled"
  have a1: "amatches_of lcs_blocks ?m1 = identity_blocks (length (self_base ?m1))"
    by code_simp
  have b1: "matching_blocks_ok (self_base ?m1) (self_b ?m1) (bmatches_of lcs_blocks ?m1)"
    by code_simp
  have b2: "bmatches_of lcs_blocks ?m2 = identity_blocks (length (self_base ?m2))"
    by code_simp
  have a2: "matching_blocks_ok (self_base ?m2) (self_a ?m2) (amatches_of lcs_blocks ?m2)"
    by code_simp
  from merge_unchanged_side[OF refl, where basetext = "''a\<newline>b\<newline>''"
      and atext = "''a\<newline>b\<newline>''" and btext = "''a\<newline>c\<newline>''" and mode = disabled
      and gmb = lcs_blocks and depth = 1 and args = default_args] a1 b1
  have 1: "\<exists>out st. merge_lines 1 lcs_blocks ?m1 default_args = Inr (out, st)
     \<and> joined out = ''a\<newline>c\<newline>'' \<and> \<not> conflicts st \<and> conflictscount st = 0"
    by blast
  from merge_unchanged_side[OF refl, where basetext = "''a\<newline>b\<newline>''"
      and atext = "''x\<newline>a\<newline>b\<newline>''" and btext = "''a\<newline>b\<newline>''" and mode = disabled
      and gmb = lcs_blocks and depth = 1 and args = default_args] b2 a2
  have 2: "\<exists>out st. merge_lines 1 lcs_blocks ?m2 default_args = Inr (out, st)
     \<and> joined out = ''x\<newline>a\<newline>b\<newline>'' \<and> \<not> conflicts st \<and> conflictscount st = 0"
    by blast
  from 1 2 show ?thesis by blast
qed

section \<open>Valid matching blocks\<close>

text \<open>
  With valid matching blocks on both sides no assertion fails and no read is out of
  range: the sync regions ascend within the sequences, and so do the regions.
\<close>

lemma side_ok_start: "blocks_chain zs xs 0 0 bl \<Longrightarrow> side_ok zs xs 0 0 bl"
  by (cases bl) auto

lemma side_ok_advance:
  "side_ok zs xs iz ix ((p, q, l) # rest) \<Longrightarrow> side_ok zs xs iz ix rest"
  by (cases rest) auto

lemma side_ok_move:
  assumes "side_ok zs xs iz ix ((p, q, l) # rest)" and "p \<le> hi" "hi \<le> p + l"
  shows "side_ok zs xs hi (q + (hi - p)) ((p, q, l) # rest)"
  using assms by (auto simp: max_def)

lemma subslice_eq:
  assumes e: "pyslice zs p (p + l) = pyslice xs q (q + l)"
    and r: "p + l \<le> length zs" "q + l \<le> length xs" and d: "d + n \<le> l"
  shows "pyslice zs (p + d) (p + d + n) = pyslice xs (q + d) (q + d + n)"
proof -
  have nth: "zs ! (p + t) = xs ! (q + t)" if "t < l" for t
  proof -
    from e have "pyslice zs p (p + l) ! t = pyslice xs q (q + l) ! t" by simp
    with that r show ?thesis by (simp add: pyslice_def)
  qed
  show ?thesis
    unfolding pyslice_def
  proof (rule nth_equalityI)
    show "length (take (p + d + n - (p + d)) (drop (p + d) zs))
            = length (take (q + d + n - (q + d)) (drop (q + d) xs))"
      using r d by simp
  next
    fix t assume "t < length (take (p + d + n - (p + d)) (drop (p + d) zs))"
    then have t: "t < n" by simp
    then have "d + t < l" using d by simp
    from nth[OF this] t r d
    show "take (p + d + n - (p + d)) (drop (p + d) zs) ! t
            = take (q + d + n - (q + d)) (drop (q + d) xs) ! t"
      by (simp add: add.assoc)
  qed
qed


lemma heads_past_left:
  assumes "side_ok zs xs iz ix ((p, q, l) # rest)" and "hi \<le> p + l"
  shows "heads_past hi rest bs"
proof (cases rest)
  case Nil
  then show ?thesis by simp
next
  case (Cons blk rest')
  obtain p' q' l' where "blk = (p', q', l')" by (cases blk)
  with Cons assms show ?thesis by (cases bs) auto
qed

lemma heads_past_right:
  assumes "side_ok zs xs iz ix ((p, q, l) # rest)" and "hi \<le> p + l"
  shows "heads_past hi as rest"
proof (cases rest)
  case Nil
  then show ?thesis by (cases as) auto
next
  case (Cons blk rest')
  obtain p' q' l' where "blk = (p', q', l')" by (cases blk)
  with Cons assms show ?thesis by (cases as) auto
qed

lemma syncs_from_weaken:
  "syncs_from m iz ia ib ss \<Longrightarrow> iz' \<le> iz \<Longrightarrow> ia' \<le> ia \<Longrightarrow> ib' \<le> ib
   \<Longrightarrow> syncs_from m iz' ia' ib' ss"
  by (cases ss) auto

lemma sync_of_ok:
  assumes "intbase \<le> intend" "abase \<le> intbase" "bbase \<le> intbase"
    and "intend - intbase \<le> alen" "intend - intbase \<le> blen"
    and "pyslice (self_base m) intbase intend
           = pyslice (self_a m) (amatch + (intbase - abase))
               (amatch + (intbase - abase) + (intend - intbase))"
    and "pyslice (self_base m) intbase intend
           = pyslice (self_b m) (bmatch + (intbase - bbase))
               (bmatch + (intbase - bbase) + (intend - intbase))"
  shows "sync_of m (abase, amatch, alen) (bbase, bmatch, blen) (intbase, intend)
         = Inr (intbase, intend,
                amatch + (intbase - abase), amatch + (intbase - abase) + (intend - intbase),
                bmatch + (intbase - bbase), bmatch + (intbase - bbase) + (intend - intbase))"
  unfolding sync_of_def Let_def prod.case
  using assms by simp

lemma sync_loop_contract:
  "side_ok (self_base m) (self_a m) iz ia as \<Longrightarrow> side_ok (self_base m) (self_b m) iz ib bs
   \<Longrightarrow> heads_past iz as bs
   \<Longrightarrow> \<exists>ss. sync_loop m as bs sl = Inr (sl @ ss) \<and> syncs_from m iz ia ib ss"
proof (induction m as bs sl arbitrary: iz ia ib rule: sync_loop.induct)
  case (1 m bmatches sl)
  then show ?case by simp
next
  case (2 m ablock amatches sl)
  then show ?case by simp
next
  case (3 m abase amatch alen amatches bbase bmatch blen bmatches sl)
  let ?Z = "self_base m" and ?A = "self_a m" and ?B = "self_b m"
  let ?ab = "(abase, amatch, alen)" and ?bb = "(bbase, bmatch, blen)"
  from "3.prems"(1) have a: "ia + abase \<le> amatch + max iz abase" "iz \<le> abase + alen"
    "abase + alen \<le> length ?Z" "amatch + alen \<le> length ?A"
    "pyslice ?Z abase (abase + alen) = pyslice ?A amatch (amatch + alen)"
    by auto
  from "3.prems"(2) have b: "ib + bbase \<le> bmatch + max iz bbase" "iz \<le> bbase + blen"
    "bbase + blen \<le> length ?Z" "bmatch + blen \<le> length ?B"
    "pyslice ?Z bbase (bbase + blen) = pyslice ?B bmatch (bmatch + blen)"
    by auto
  define sa where "sa = max abase bbase"
  define sb where "sb = min (abase + alen) (bbase + blen)"
  from "3.prems"(3) have hp: "iz \<le> sa" by (simp add: sa_def)
  have lo: "abase \<le> sa" "bbase \<le> sa" by (simp_all add: sa_def)
  have hi: "sb \<le> abase + alen" "sb \<le> bbase + blen" by (simp_all add: sb_def)
  have ord: "\<not> fst (abase, abase + alen) \<le> snd (abase, abase + alen) \<longleftrightarrow> False"
    "\<not> fst (bbase, bbase + blen) \<le> snd (bbase, bbase + blen) \<longleftrightarrow> False" by simp_all
  have i: "intersect (abase, abase + alen) (bbase, bbase + blen)
             = (if sa < sb then Inr (Some (sa, sb)) else Inr None)"
    unfolding intersect_def Let_def ord sa_def sb_def by simp
  show ?case
  proof (cases "sa < sb")
    case False
    show ?thesis
    proof (cases "abase + alen < bbase + blen")
      case True
      have "\<exists>ss. sync_loop m amatches (?bb # bmatches) sl = Inr (sl @ ss) \<and> syncs_from m iz ia ib ss"
        by (rule "3.IH"(1)[OF True side_ok_advance[OF "3.prems"(1)] "3.prems"(2)
              heads_past_left[OF "3.prems"(1) a(2)]])
      then show ?thesis unfolding sync_loop.simps i using False True by simp
    next
      case na: False
      have "\<exists>ss. sync_loop m (?ab # amatches) bmatches sl = Inr (sl @ ss) \<and> syncs_from m iz ia ib ss"
        by (rule "3.IH"(2)[OF na "3.prems"(1) side_ok_advance[OF "3.prems"(2)]
              heads_past_right[OF "3.prems"(2) b(2)]])
      then show ?thesis unfolding sync_loop.simps i using False na by simp
    qed
  next
    case True
    define n where "n = sb - sa"
    define asub where "asub = amatch + (sa - abase)"
    define bsub where "bsub = bmatch + (sa - bbase)"
    let ?s = "(sa, sb, asub, asub + n, bsub, bsub + n)"
    have na: "(sa - abase) + n \<le> alen" and nb: "(sa - bbase) + n \<le> blen"
      using True lo hi by (simp_all add: n_def)
    have pa: "abase + (sa - abase) = sa" "sa + n = sb"
      and pb: "bbase + (sa - bbase) = sa" "sa + n = sb"
      using True lo by (simp_all add: n_def)
    have sla: "pyslice ?Z sa sb = pyslice ?A asub (asub + n)"
      using subslice_eq[OF a(5) a(3) a(4) na] unfolding pa asub_def .
    have slb: "pyslice ?Z sa sb = pyslice ?B bsub (bsub + n)"
      using subslice_eq[OF b(5) b(3) b(4) nb] unfolding pb bsub_def .
    have le: "sa \<le> sb" "sb - sa \<le> alen" "sb - sa \<le> blen"
      using True na nb by (simp_all add: n_def)
    have so: "sync_of m ?ab ?bb (sa, sb) = Inr ?s"
      unfolding asub_def bsub_def n_def
      by (rule sync_of_ok[OF le(1) lo le(2) le(3) sla[unfolded asub_def n_def]
            slb[unfolded bsub_def n_def]])
    have ends: "asub + n = amatch + (sb - abase)" "bsub + n = bmatch + (sb - bbase)"
      using True lo by (simp_all add: asub_def bsub_def n_def)
    have rng: "abase \<le> sb" "bbase \<le> sb"
      using True lo by simp_all
    have ma: "side_ok ?Z ?A sb (asub + n) (?ab # amatches)"
      unfolding ends by (rule side_ok_move[OF "3.prems"(1) rng(1) hi(1)])
    have mb: "side_ok ?Z ?B sb (bsub + n) (?bb # bmatches)"
      unfolding ends by (rule side_ok_move[OF "3.prems"(2) rng(2) hi(2)])
    have h1: "ia \<le> asub"
    proof -
      have "max iz abase \<le> sa" using hp lo by simp
      with a(1) lo show ?thesis unfolding asub_def by linarith
    qed
    have h2: "ib \<le> bsub"
    proof -
      have "max iz bbase \<le> sa" using hp lo by simp
      with b(1) lo show ?thesis unfolding bsub_def by linarith
    qed
    have h3: "sb \<le> length ?Z" using hi a(3) by linarith
    have h4: "asub + n \<le> length ?A" unfolding ends using hi(1) a(4) rng(1) by linarith
    have h5: "bsub + n \<le> length ?B" unfolding ends using hi(2) b(4) rng(2) by linarith
    have cons: "syncs_from m iz ia ib (?s # ss)"
      if "syncs_from m sb (asub + n) (bsub + n) ss" for ss
      using that hp h1 h2 h3 h4 h5 le(1) by (simp add: n_def)
    show ?thesis
    proof (cases "abase + alen < bbase + blen")
      case lt: True
      have "\<exists>ss. sync_loop m amatches (?bb # bmatches) (sl @ [?s]) = Inr ((sl @ [?s]) @ ss)
              \<and> syncs_from m sb (asub + n) (bsub + n) ss"
        by (rule "3.IH"(1)[OF lt side_ok_advance[OF ma] mb
              heads_past_left[OF "3.prems"(1) hi(1)]])
      then obtain ss where
        r: "sync_loop m amatches (?bb # bmatches) (sl @ [?s]) = Inr ((sl @ [?s]) @ ss)"
        and c: "syncs_from m sb (asub + n) (bsub + n) ss" by blast
      have "sync_loop m (?ab # amatches) (?bb # bmatches) sl = Inr (sl @ (?s # ss))"
        unfolding sync_loop.simps i using True so lt r by simp
      with cons[OF c] show ?thesis by blast
    next
      case ge: False
      have "\<exists>ss. sync_loop m (?ab # amatches) bmatches (sl @ [?s]) = Inr ((sl @ [?s]) @ ss)
              \<and> syncs_from m sb (asub + n) (bsub + n) ss"
        by (rule "3.IH"(2)[OF ge ma side_ok_advance[OF mb]
              heads_past_right[OF "3.prems"(2) hi(2)]])
      then obtain ss where
        r: "sync_loop m (?ab # amatches) bmatches (sl @ [?s]) = Inr ((sl @ [?s]) @ ss)"
        and c: "syncs_from m sb (asub + n) (bsub + n) ss" by blast
      have "sync_loop m (?ab # amatches) (?bb # bmatches) sl = Inr (sl @ (?s # ss))"
        unfolding sync_loop.simps i using True so ge r by simp
      with cons[OF c] show ?thesis by blast
    qed
  qed
qed


lemma syncs_from_end:
  "syncs_from m iz ia ib ss \<Longrightarrow> iz \<le> length (self_base m) \<Longrightarrow> ia \<le> length (self_a m)
   \<Longrightarrow> ib \<le> length (self_b m) \<Longrightarrow> syncs_from m iz ia ib (ss @ [end_sync m])"
proof (induction ss arbitrary: iz ia ib)
  case Nil
  then show ?case by (simp add: end_sync_def)
next
  case (Cons s ss)
  obtain z1 z2 a1 a2 b1 b2 where s: "s = (z1, z2, a1, a2, b1, b2)" by (cases s)
  from Cons.prems(1) s have r: "syncs_from m z2 a2 b2 ss"
    and b: "z2 \<le> length (self_base m)" "a2 \<le> length (self_a m)" "b2 \<le> length (self_b m)"
    and h: "iz \<le> z1" "ia \<le> a1" "ib \<le> b1" "z1 \<le> z2"
      "a2 = a1 + (z2 - z1)" "b2 = b1 + (z2 - z1)"
    by auto
  have "syncs_from m z2 a2 b2 (ss @ [end_sync m])" by (rule Cons.IH[OF r b])
  then have "syncs_from m iz ia ib ((z1, z2, a1, a2, b1, b2) # (ss @ [end_sync m]))"
    unfolding syncs_from.simps using b h by blast
  then show ?case unfolding s append_Cons .
qed

lemma gap_in_range:
  assumes "iz \<le> z1" "z1 \<le> length (self_base m)" "ia \<le> a1" "a1 \<le> length (self_a m)"
    "ib \<le> b1" "b1 \<le> length (self_b m)"
  shows "\<exists>gap. (if a1 - ia \<noteq> 0 \<or> b1 - ib \<noteq> 0
                 then bnd (classify m iz z1 ia a1 ib b1) (\<lambda>r. Inr ([r], a1, b1))
                 else Inr ([], ia, ib)) = Inr (gap, a1, b1)
           \<and> (\<forall>r \<in> set gap. region_in_range m r)"
proof (cases "a1 - ia \<noteq> 0 \<or> b1 - ib \<noteq> 0")
  case False
  then have "a1 = ia" "b1 = ib" using assms by auto
  then show ?thesis by simp
next
  case True
  have ea: "compare_range (self_a m) ia a1 (self_base m) iz z1
              = Inr (pyslice (self_a m) ia a1 = pyslice (self_base m) iz z1)"
    using assms by (simp add: compare_range_slices)
  have eb: "compare_range (self_b m) ib b1 (self_base m) iz z1
              = Inr (pyslice (self_b m) ib b1 = pyslice (self_base m) iz z1)"
    using assms by (simp add: compare_range_slices)
  have sm: "compare_range (self_a m) ia a1 (self_b m) ib b1
              = Inr (pyslice (self_a m) ia a1 = pyslice (self_b m) ib b1)"
    using assms by (simp add: compare_range_slices)
  have "\<exists>r. classify m iz z1 ia a1 ib b1 = Inr r \<and> region_in_range m r"
    unfolding classify_def ea eb sm using assms by auto
  then show ?thesis using True by auto
qed

lemma regions_loop_contract:
  "syncs_from m iz ia ib ss \<Longrightarrow>
   snd (regions_loop m iz ia ib ss) = None \<and>
   (\<forall>r \<in> set (fst (regions_loop m iz ia ib ss)). region_in_range m r)"
proof (induction ss arbitrary: iz ia ib)
  case Nil
  then show ?case by simp
next
  case (Cons s ss)
  obtain z1 z2 a1 a2 b1 b2 where s: "s = (z1, z2, a1, a2, b1, b2)" by (cases s)
  define len where "len = z2 - z1"
  from Cons.prems s have c: "iz \<le> z1" "ia \<le> a1" "ib \<le> b1"
    and e: "z2 = z1 + len" "a2 = a1 + len" "b2 = b1 + len"
    and b: "z1 + len \<le> length (self_base m)" "a1 + len \<le> length (self_a m)"
      "b1 + len \<le> length (self_b m)"
    and r: "syncs_from m (z1 + len) (a1 + len) (b1 + len) ss"
    by (auto simp: len_def)
  have b1: "z1 \<le> length (self_base m)" "a1 \<le> length (self_a m)" "b1 \<le> length (self_b m)"
    using b by simp_all
  from gap_in_range[OF c(1) b1(1) c(2) b1(2) c(3) b1(3)] obtain gap where
    g: "(if a1 - ia \<noteq> 0 \<or> b1 - ib \<noteq> 0
         then bnd (classify m iz z1 ia a1 ib b1) (\<lambda>r. Inr ([r], a1, b1))
         else Inr ([], ia, ib)) = Inr (gap, a1, b1)"
    and gr: "\<forall>r \<in> set gap. region_in_range m r" by blast
  have step: "regions_loop m iz ia ib ((z1, z1 + len, a1, a1 + len, b1, b1 + len) # ss)
          = yields (gap @ (if len > 0 then [Unchanged z1 (z1 + len)] else []))
              (regions_loop m (z1 + len) (a1 + len) (b1 + len) ss)"
    by (rule regions_loop_Cons[OF c g])
  from Cons.IH[OF r] have ih: "snd (regions_loop m (z1 + len) (a1 + len) (b1 + len) ss) = None"
    "\<forall>r \<in> set (fst (regions_loop m (z1 + len) (a1 + len) (b1 + len) ss)). region_in_range m r"
    by auto
  show ?case unfolding s e step using ih gr b by auto
qed

lemma merge_regions_contract:
  assumes "matching_blocks_ok (self_base m) (self_a m) (amatches_of gmb m)"
    and "matching_blocks_ok (self_base m) (self_b m) (bmatches_of gmb m)"
  shows "snd (merge_regions gmb m) = None \<and>
         (\<forall>r \<in> set (fst (merge_regions gmb m)). region_in_range m r)"
proof -
  from assms have ca: "side_ok (self_base m) (self_a m) 0 0 (amatches_of gmb m)"
    and cb: "side_ok (self_base m) (self_b m) 0 0 (bmatches_of gmb m)"
    by (simp_all add: matching_blocks_ok_def side_ok_start)
  have hp: "heads_past 0 (amatches_of gmb m) (bmatches_of gmb m)"
    by (cases "(0::nat, amatches_of gmb m, bmatches_of gmb m)" rule: heads_past.cases) auto
  from sync_loop_contract[OF ca cb hp, of "[]"] obtain ss where
    sl: "sync_loop m (amatches_of gmb m) (bmatches_of gmb m) [] = Inr ss"
    and sf: "syncs_from m 0 0 0 ss" by auto
  from sl have f: "find_sync_regions gmb m = Inr (ss @ [end_sync m])"
    by (simp add: find_sync_regions_def)
  from syncs_from_end[OF sf] have "syncs_from m 0 0 0 (ss @ [end_sync m])" by simp
  from regions_loop_contract[OF this] f show ?thesis
    by (simp add: merge_regions_def)
qed

lemma region_in_range_conflict: "region_in_range m r \<Longrightarrow> conflict_in_range m r"
  by (cases r) auto

section \<open>Recovery from CantShowWordConflicts\<close>

lemma plain_of_in_range: "region_in_range m r \<Longrightarrow> \<not> is_conflict r \<Longrightarrow> plain_region m r"
  by (cases r) auto

lemma merge_lines_with_no_conflict:
  assumes "matching_blocks_ok (self_base m) (self_a m) (amatches_of gmb m)"
    and "matching_blocks_ok (self_base m) (self_b m) (bmatches_of gmb m)"
    and "\<forall>t \<in> set (fst (merge_regions gmb m)). \<not> is_conflict t"
  shows "\<exists>out. merge_lines_with tw gmb m args
               = Inr (out, \<lparr> conflicts = False, conflictscount = 0 \<rparr>)"
proof -
  from merge_regions_contract[OF assms(1) assms(2)]
  have s: "snd (merge_regions gmb m) = None"
    and r: "\<forall>r \<in> set (fst (merge_regions gmb m)). region_in_range m r" by auto
  from r assms(3) have p: "\<forall>r \<in> set (fst (merge_regions gmb m)). plain_region m r"
    by (auto intro: plain_of_in_range)
  have "merge_regions gmb m = (fst (merge_regions gmb m), None)"
    using s by (metis prod.collapse)
  from merge_lines_with_plain[OF this p] show ?thesis by blast
qed

text \<open>
  Claim C7: \<^verbatim>\<open>trywordmerge\<close> returns \<^verbatim>\<open>None\<close> exactly when the inner enforced-mode merge
  raises CantShowWordConflicts; when the inner merge returns, it returns the joined
  output; every other exception passes through. When the region stream of the inner
  merge has no conflict the result is not \<^verbatim>\<open>None\<close>, and with valid matching blocks the
  inner merge returns and \<^verbatim>\<open>trywordmerge\<close> returns its joined output. A merge that is not
  in enforced mode never lets CantShowWordConflicts escape.
\<close>

theorem trywordmerge_recovery:
  "(trywordmerge (Suc depth) gmb z a b = Inr None \<longleftrightarrow>
      merge_lines depth gmb (Merge3Text_init z a b enforced) default_args
        = Inl CantShowWordConflicts)
   \<and> (\<forall>out st. merge_lines depth gmb (Merge3Text_init z a b enforced) default_args = Inr (out, st)
        \<longrightarrow> trywordmerge (Suc depth) gmb z a b = Inr (Some (joined out)))
   \<and> (\<forall>e. merge_lines depth gmb (Merge3Text_init z a b enforced) default_args = Inl e
           \<and> e \<noteq> CantShowWordConflicts
        \<longrightarrow> trywordmerge (Suc depth) gmb z a b = Inl e)
   \<and> ((\<forall>t \<in> set (fst (merge_regions gmb (Merge3Text_init z a b enforced))). \<not> is_conflict t)
        \<longrightarrow> trywordmerge (Suc depth) gmb z a b \<noteq> Inr None)
   \<and> (matching_blocks_ok (self_base (Merge3Text_init z a b enforced))
          (self_a (Merge3Text_init z a b enforced))
          (amatches_of gmb (Merge3Text_init z a b enforced))
        \<and> matching_blocks_ok (self_base (Merge3Text_init z a b enforced))
          (self_b (Merge3Text_init z a b enforced))
          (bmatches_of gmb (Merge3Text_init z a b enforced))
        \<and> (\<forall>t \<in> set (fst (merge_regions gmb (Merge3Text_init z a b enforced))). \<not> is_conflict t)
        \<longrightarrow> (\<exists>out st. merge_lines depth gmb (Merge3Text_init z a b enforced) default_args
                          = Inr (out, st)
                     \<and> trywordmerge (Suc depth) gmb z a b = Inr (Some (joined out))))
   \<and> (self_wordmerge m \<noteq> enforced
        \<longrightarrow> merge_lines (Suc depth) gmb m args \<noteq> Inl CantShowWordConflicts)"
proof (intro conjI allI impI)
  let ?m = "Merge3Text_init z a b enforced"
  show "trywordmerge (Suc depth) gmb z a b = Inr None \<longleftrightarrow>
      merge_lines depth gmb ?m default_args = Inl CantShowWordConflicts"
    by (auto simp: merge_lines_def Let_def split: sum.splits)
  show "trywordmerge (Suc depth) gmb z a b = Inr (Some (joined out))"
    if "merge_lines depth gmb ?m default_args = Inr (out, st)" for out st
    using that by (simp add: merge_lines_def)
  show "trywordmerge (Suc depth) gmb z a b = Inl e"
    if "merge_lines depth gmb ?m default_args = Inl e \<and> e \<noteq> CantShowWordConflicts" for e
    using that by (simp add: merge_lines_def)
  show "trywordmerge (Suc depth) gmb z a b \<noteq> Inr None"
    if nc: "\<forall>t \<in> set (fst (merge_regions gmb ?m)). \<not> is_conflict t"
  proof
    assume "trywordmerge (Suc depth) gmb z a b = Inr None"
    then have "merge_lines_with (trywordmerge depth gmb) gmb ?m default_args
                 = Inl CantShowWordConflicts"
      by (auto simp: Let_def split: sum.splits if_splits)
    then have "render (trywordmerge depth gmb) ?m
        (default_args\<lparr> start_marker := with_label (name_a default_args) (start_marker default_args),
                       end_marker := with_label (name_b default_args) (end_marker default_args),
                       base_marker := with_label (name_base default_args) (base_marker default_args) \<rparr>)
        (newline_of ?m) (fst (merge_regions gmb ?m)) (snd (merge_regions gmb ?m))
        \<lparr> conflicts = False, conflictscount = 0 \<rparr> = Inl CantShowWordConflicts"
      by (simp add: merge_lines_with_def Let_def default_args_def)
    from render_err[OF this] nc merge_regions_stop[of gmb ?m CantShowWordConflicts]
    show False by (auto simp: Merge3Text_init_def)
  qed
  show "\<exists>out st. merge_lines depth gmb ?m default_args = Inr (out, st)
                \<and> trywordmerge (Suc depth) gmb z a b = Inr (Some (joined out))"
    if h: "matching_blocks_ok (self_base ?m) (self_a ?m) (amatches_of gmb ?m)
        \<and> matching_blocks_ok (self_base ?m) (self_b ?m) (bmatches_of gmb ?m)
        \<and> (\<forall>t \<in> set (fst (merge_regions gmb ?m)). \<not> is_conflict t)"
  proof -
    from h merge_lines_with_no_conflict[of ?m gmb "trywordmerge depth gmb" default_args]
    obtain out where
      o: "merge_lines_with (trywordmerge depth gmb) gmb ?m default_args
            = Inr (out, \<lparr> conflicts = False, conflictscount = 0 \<rparr>)" by blast
    then show ?thesis by (auto simp: merge_lines_def)
  qed
  show "merge_lines (Suc depth) gmb m args \<noteq> Inl CantShowWordConflicts"
    if "self_wordmerge m \<noteq> enforced"
    using that merge_lines_with_err[of "trywordmerge (Suc depth) gmb" gmb m args CantShowWordConflicts]
      trywordmerge_err[of depth gmb _ _ _ CantShowWordConflicts]
    by (auto simp: merge_lines_def)
qed

theorem trywordmerge_recovery_witness:
  "merge_lines 0 lcs_blocks (Merge3Text_init ''one'' ''two'' ''three'' enforced) default_args
     = Inl CantShowWordConflicts
   \<and> trywordmerge (Suc 0) lcs_blocks ''one'' ''two'' ''three'' = Inr None
   \<and> fst (merge_regions lcs_blocks (Merge3Text_init ''a b'' ''a c'' ''d b'' enforced))
     = [TakeB 0 1, Unchanged 1 2, TakeA 2 3]
   \<and> (\<exists>out st. merge_lines 0 lcs_blocks (Merge3Text_init ''a b'' ''a c'' ''d b'' enforced)
                  default_args = Inr (out, st)
        \<and> trywordmerge (Suc 0) lcs_blocks ''a b'' ''a c'' ''d b'' = Inr (Some (joined out)))
   \<and> trywordmerge (Suc 0) lcs_blocks ''a b'' ''a c'' ''d b'' = Inr (Some ''d c'')"
proof -
  let ?m = "Merge3Text_init ''a b'' ''a c'' ''d b'' enforced"
  have 1: "merge_lines 0 lcs_blocks (Merge3Text_init ''one'' ''two'' ''three'' enforced)
             default_args = Inl CantShowWordConflicts"
    by code_simp
  have 2: "merge_lines 0 lcs_blocks ?m default_args
     = Inr ([Line ''d'', Line '' '', Line ''c''], \<lparr> conflicts = False, conflictscount = 0 \<rparr>)"
    by code_simp
  have ca: "matching_blocks_ok (self_base ?m) (self_a ?m) (amatches_of lcs_blocks ?m)"
    by code_simp
  have cb: "matching_blocks_ok (self_base ?m) (self_b ?m) (bmatches_of lcs_blocks ?m)"
    by code_simp
  have rs: "fst (merge_regions lcs_blocks ?m) = [TakeB 0 1, Unchanged 1 2, TakeA 2 3]"
    by code_simp
  have nc: "\<forall>t \<in> set (fst (merge_regions lcs_blocks ?m)). \<not> is_conflict t"
    unfolding rs by simp
  from trywordmerge_recovery[of 0 lcs_blocks "''one''" "''two''" "''three''"] 1
  have 3: "trywordmerge (Suc 0) lcs_blocks ''one'' ''two'' ''three'' = Inr None" by blast
  from trywordmerge_recovery[of 0 lcs_blocks "''a b''" "''a c''" "''d b''"] ca cb nc
  have 4: "\<exists>out st. merge_lines 0 lcs_blocks ?m default_args = Inr (out, st)
        \<and> trywordmerge (Suc 0) lcs_blocks ''a b'' ''a c'' ''d b'' = Inr (Some (joined out))"
    by blast
  with 2 have 5: "trywordmerge (Suc 0) lcs_blocks ''a b'' ''a c'' ''d b'' = Inr (Some ''d c'')"
    by (auto simp: joined_def)
  from 1 3 rs 4 5 show ?thesis by blast
qed

section \<open>Minimized and unminimized conflicts\<close>

lemma lines_of_append [simp]: "lines_of (xs @ ys) = lines_of xs @ lines_of ys"
  by (induction xs rule: lines_of.induct) auto

lemma lines_of_Line [simp]: "lines_of (map Line xs) = xs"
  by (induction xs) auto

lemma lines_of_marker [simp]: "lines_of (marker_line mk nl) = []"
  by (cases mk) (auto simp: marker_line_def)

lemma same_tokens_refl [simp]: "same_tokens r r"
  by (cases r) auto

lemma render_append:
  "render tw m args nl (xs @ ys) stop st =
     bnd (render tw m args nl xs None st) (\<lambda>(out, st').
     bnd (render tw m args nl ys stop st') (\<lambda>(out', st'').
       Inr (out @ out', st'')))"
proof (induction xs arbitrary: st)
  case Nil
  show ?case by (cases "render tw m args nl ys stop st") auto
next
  case (Cons x xs)
  show ?case
  proof (cases "render_region tw m args nl x st")
    case (Inl e) then show ?thesis by simp
  next
    case (Inr r)
    obtain o1 s1 where r: "r = (o1, s1)" by (cases r)
    show ?thesis
    proof (cases "render tw m args nl xs None s1")
      case (Inl e) then show ?thesis using Inr r Cons.IH[of s1] by simp
    next
      case i2: (Inr r2)
      obtain o2 s2 where r2: "r2 = (o2, s2)" by (cases r2)
      show ?thesis
        using Inr r i2 r2 Cons.IH[of s1]
        by (cases "render tw m args nl ys stop s2") auto
    qed
  qed
qed

lemma front_loop_spec:
  "front_loop m a1 b1 alen blen ii = Inr s \<Longrightarrow>
   ii \<le> s \<and> (int ii \<le> alen \<and> int ii \<le> blen \<longrightarrow> int s \<le> alen \<and> int s \<le> blen) \<and>
   (\<forall>i. ii \<le> i \<and> i < s \<longrightarrow> self_a m ! (a1 + i) = self_b m ! (b1 + i))"
proof (induction m a1 b1 alen blen ii rule: front_loop.induct)
  case (1 m a1 b1 alen blen ii)
  show ?case
  proof (cases "int ii < alen \<and> int ii < blen")
    case False
    with "1.prems" have "s = ii" by (subst (asm) front_loop.simps) simp
    then show ?thesis by auto
  next
    case True
    from "1.prems" True obtain x y where
      x: "getitem (self_a m) (a1 + ii) = Inr x" and y: "getitem (self_b m) (b1 + ii) = Inr y"
      and r: "(if x = y then front_loop m a1 b1 alen blen (ii + 1) else Inr ii) = Inr s"
      by (subst (asm) front_loop.simps) (auto split: sum.splits)
    show ?thesis
    proof (cases "x = y")
      case False
      with r have "s = ii" by simp
      then show ?thesis using True by auto
    next
      case xy: True
      with r have r': "front_loop m a1 b1 alen blen (ii + 1) = Inr s" by simp
      from "1.IH"[OF True x y xy r'] True
      have st: "ii + 1 \<le> s" "int s \<le> alen \<and> int s \<le> blen"
        "\<forall>i. ii + 1 \<le> i \<and> i < s \<longrightarrow> self_a m ! (a1 + i) = self_b m ! (b1 + i)"
        by auto
      have here: "self_a m ! (a1 + ii) = self_b m ! (b1 + ii)"
        using x y xy by (auto simp: getitem_def split: if_splits)
      have all: "self_a m ! (a1 + i) = self_b m ! (b1 + i)" if "ii \<le> i" "i < s" for i
      proof (cases "i = ii")
        case True
        then show ?thesis using here by simp
      next
        case False
        with that have "ii + 1 \<le> i" by simp
        with st(3) that show ?thesis by blast
      qed
      from st(1) have "ii \<le> s" by simp
      with st(2) all show ?thesis by blast
    qed
  qed
qed


lemma end_loop_spec:
  "end_loop m a2 b2 alen blen ii = Inr s \<Longrightarrow>
   ii \<le> s \<and> (int ii \<le> alen \<and> int ii \<le> blen \<longrightarrow> int s \<le> alen \<and> int s \<le> blen) \<and>
   (\<forall>i. ii \<le> i \<and> i < s \<longrightarrow> self_a m ! (a2 - i - 1) = self_b m ! (b2 - i - 1))"
proof (induction m a2 b2 alen blen ii rule: end_loop.induct)
  case (1 m a2 b2 alen blen ii)
  show ?case
  proof (cases "int ii < alen \<and> int ii < blen")
    case False
    with "1.prems" have "s = ii" by (subst (asm) end_loop.simps) simp
    then show ?thesis by auto
  next
    case True
    from "1.prems" True obtain x y where
      x: "getitem (self_a m) (a2 - ii - 1) = Inr x"
      and y: "getitem (self_b m) (b2 - ii - 1) = Inr y"
      and r: "(if x = y then end_loop m a2 b2 alen blen (ii + 1) else Inr ii) = Inr s"
      by (subst (asm) end_loop.simps) (auto split: sum.splits)
    show ?thesis
    proof (cases "x = y")
      case False
      with r have "s = ii" by simp
      then show ?thesis using True by auto
    next
      case xy: True
      with r have r': "end_loop m a2 b2 alen blen (ii + 1) = Inr s" by simp
      from "1.IH"[OF True x y xy r'] True
      have st: "ii + 1 \<le> s" "int s \<le> alen \<and> int s \<le> blen"
        "\<forall>i. ii + 1 \<le> i \<and> i < s \<longrightarrow> self_a m ! (a2 - i - 1) = self_b m ! (b2 - i - 1)"
        by auto
      have here: "self_a m ! (a2 - ii - 1) = self_b m ! (b2 - ii - 1)"
        using x y xy by (auto simp: getitem_def split: if_splits)
      have all: "self_a m ! (a2 - i - 1) = self_b m ! (b2 - i - 1)" if "ii \<le> i" "i < s" for i
      proof (cases "i = ii")
        case True
        then show ?thesis using here by simp
      next
        case False
        with that have "ii + 1 \<le> i" by simp
        with st(3) that show ?thesis by blast
      qed
      from st(1) have "ii \<le> s" by simp
      with st(2) all show ?thesis by blast
    qed
  qed
qed

lemma front_loop_total:
  "int a1 + alen \<le> int (length (self_a m)) \<Longrightarrow> int b1 + blen \<le> int (length (self_b m))
   \<Longrightarrow> \<exists>s. front_loop m a1 b1 alen blen ii = Inr s"
proof (induction m a1 b1 alen blen ii rule: front_loop.induct)
  case (1 m a1 b1 alen blen ii)
  show ?case
  proof (cases "int ii < alen \<and> int ii < blen")
    case False
    then show ?thesis by (subst front_loop.simps) auto
  next
    case True
    with "1.prems" have x: "getitem (self_a m) (a1 + ii) = Inr (self_a m ! (a1 + ii))"
      and y: "getitem (self_b m) (b1 + ii) = Inr (self_b m ! (b1 + ii))"
      by (auto simp: getitem_def)
    show ?thesis
    proof (cases "self_a m ! (a1 + ii) = self_b m ! (b1 + ii)")
      case False
      then show ?thesis using True x y by (subst front_loop.simps) simp
    next
      case xy: True
      from "1.IH"[OF True x y xy "1.prems"] obtain s where
        "front_loop m a1 b1 alen blen (ii + 1) = Inr s" by blast
      then show ?thesis using True x y xy by (subst front_loop.simps) simp
    qed
  qed
qed

lemma end_loop_total:
  "a2 \<le> length (self_a m) \<Longrightarrow> b2 \<le> length (self_b m) \<Longrightarrow> alen \<le> int a2 \<Longrightarrow> blen \<le> int b2
   \<Longrightarrow> \<exists>s. end_loop m a2 b2 alen blen ii = Inr s"
proof (induction m a2 b2 alen blen ii rule: end_loop.induct)
  case (1 m a2 b2 alen blen ii)
  show ?case
  proof (cases "int ii < alen \<and> int ii < blen")
    case False
    then show ?thesis by (subst end_loop.simps) auto
  next
    case True
    with "1.prems" have x: "getitem (self_a m) (a2 - ii - 1) = Inr (self_a m ! (a2 - ii - 1))"
      and y: "getitem (self_b m) (b2 - ii - 1) = Inr (self_b m ! (b2 - ii - 1))"
      by (auto simp: getitem_def)
    show ?thesis
    proof (cases "self_a m ! (a2 - ii - 1) = self_b m ! (b2 - ii - 1)")
      case False
      then show ?thesis using True x y by (subst end_loop.simps) simp
    next
      case xy: True
      from "1.IH"[OF True x y xy "1.prems"] obtain s where
        "end_loop m a2 b2 alen blen (ii + 1) = Inr s" by blast
      then show ?thesis using True x y xy by (subst end_loop.simps) simp
    qed
  qed
qed

lemma set_pyslice: "hi \<le> length xs \<Longrightarrow> set (pyslice xs lo hi) = nth xs ` {lo..<hi}"
  by (simp add: pyslice_map_nth)

lemma image_shift:
  assumes "\<And>i. i < n \<Longrightarrow> f (p + i) = g (q + i)"
  shows "f ` {p..<p + n} = g ` {q..<q + (n::nat)}"
proof (intro set_eqI iffI)
  fix x assume "x \<in> f ` {p..<p + n}"
  then obtain k where k: "p \<le> k" "k < p + n" "x = f k" by auto
  then have "k - p < n" "f k = g (q + (k - p))" using assms[of "k - p"] by auto
  with k show "x \<in> g ` {q..<q + n}"
    by (intro image_eqI[where x = "q + (k - p)"]) auto
next
  fix x assume "x \<in> g ` {q..<q + n}"
  then obtain k where k: "q \<le> k" "k < q + n" "x = g k" by auto
  then have "k - q < n" "g k = f (p + (k - q))" using assms[of "k - q"] by auto
  with k show "x \<in> f ` {p..<p + n}"
    by (intro image_eqI[where x = "p + (k - q)"]) auto
qed

lemma trimmed_sets:
  assumes r: "a1 \<le> a2" "a2 \<le> length A" "b1 \<le> b2" "b2 \<le> length B"
    and s: "s \<le> a2 - a1" "s \<le> b2 - b1" and e: "e \<le> a2 - a1" "e \<le> b2 - b1"
    and fr: "\<And>i. i < s \<Longrightarrow> A ! (a1 + i) = B ! (b1 + i)"
    and en: "\<And>i. i < e \<Longrightarrow> A ! (a2 - i - 1) = B ! (b2 - i - 1)"
  shows "set (pyslice A a1 (a1 + s)) \<union> set (pyslice A (a1 + s) (a2 - e))
           \<union> set (pyslice A (a2 - e) a2) = set (pyslice A a1 a2)"
    and "set (pyslice A a1 (a1 + s)) \<union> set (pyslice B (b1 + s) (b2 - e))
           \<union> set (pyslice A (a2 - e) a2) = set (pyslice B b1 b2)"
proof -
  have ia: "{a1..<a1 + s} \<union> {a1 + s..<a2 - e} \<union> {a2 - e..<a2} = {a1..<a2}"
    using r s e by auto
  have ib: "{b1..<b1 + s} \<union> {b1 + s..<b2 - e} \<union> {b2 - e..<b2} = {b1..<b2}"
    using r s e by auto
  have pa: "set (pyslice A a1 (a1 + s)) = nth A ` {a1..<a1 + s}"
    and ma: "set (pyslice A (a1 + s) (a2 - e)) = nth A ` {a1 + s..<a2 - e}"
    and sa: "set (pyslice A (a2 - e) a2) = nth A ` {a2 - e..<a2}"
    and wa: "set (pyslice A a1 a2) = nth A ` {a1..<a2}"
    using r s e by (simp_all add: set_pyslice)
  have mb: "set (pyslice B (b1 + s) (b2 - e)) = nth B ` {b1 + s..<b2 - e}"
    and wb: "set (pyslice B b1 b2) = nth B ` {b1..<b2}"
    using r s e by (simp_all add: set_pyslice)
  show "set (pyslice A a1 (a1 + s)) \<union> set (pyslice A (a1 + s) (a2 - e))
           \<union> set (pyslice A (a2 - e) a2) = set (pyslice A a1 a2)"
    unfolding pa ma sa wa image_Un[symmetric] ia ..
  have f1: "nth A ` {a1..<a1 + s} = nth B ` {b1..<b1 + s}"
    by (rule image_shift) (rule fr)
  have "nth A ` {(a2 - e)..<(a2 - e) + e} = nth B ` {(b2 - e)..<(b2 - e) + e}"
  proof (rule image_shift)
    fix i assume i: "i < e"
    then have "e - 1 - i < e" by simp
    from en[OF this] i e r show "A ! (a2 - e + i) = B ! (b2 - e + i)"
      by (simp add: algebra_simps)
  qed
  then have f2: "nth A ` {a2 - e..<a2} = nth B ` {b2 - e..<b2}"
    using e r by simp
  show "set (pyslice A a1 (a1 + s)) \<union> set (pyslice B (b1 + s) (b2 - e))
           \<union> set (pyslice A (a2 - e) a2) = set (pyslice B b1 b2)"
    unfolding pa mb sa wb f1 f2 image_Un[symmetric] ib ..
qed


lemma render_sandwich:
  assumes "\<forall>r \<in> set pre. plain_region m r" and "\<forall>r \<in> set post. plain_region m r"
  shows "render tw m args nl (pre @ [c] @ post) None st =
           bnd (render_region tw m args nl c st) (\<lambda>(out, st').
             Inr (map Line (concat (map (region_lines m) pre)) @ out
                  @ map Line (concat (map (region_lines m) post)), st'))"
proof (cases "render_region tw m args nl c st")
  case (Inl e)
  then show ?thesis using assms by (simp add: render_append render_plain)
next
  case (Inr r)
  obtain out st' where "r = (out, st')" by (cases r)
  with Inr show ?thesis using assms by (simp add: render_append render_plain)
qed

lemma show_conflict_in:
  assumes "a2 \<le> length (self_a m)" "b2 \<le> length (self_b m)"
  shows "show_conflict m args nl z1 z2 a1 a2 b1 b2 st =
           bnd (if base_marker args \<noteq> None then yield_range (self_base m) z1 z2 else Inr [])
             (\<lambda>baselines.
                Inr (marker_line (start_marker args) nl
                     @ map Line (pyslice (self_a m) a1 a2)
                     @ marker_line (base_marker args) nl @ baselines
                     @ marker_line (mid_marker args) nl
                     @ map Line (pyslice (self_b m) b1 b2)
                     @ marker_line (end_marker args) nl,
                     st\<lparr> conflicts := True, conflictscount := conflictscount st + 1 \<rparr>))"
  using assms by (simp add: show_conflict_def yield_range_in)

lemma conflict_minimized:
  assumes mode: "self_wordmerge m \<noteq> ondemand"
    and r: "a1 \<le> a2" "a2 \<le> length (self_a m)" "b1 \<le> b2" "b2 \<le> length (self_b m)"
  shows "\<exists>regs. minimize_region m (Conflict z1 z2 a1 a2 b1 b2) = Inr regs \<and>
           same_tokens (render tw m args nl regs None st)
             (render_region tw m args nl (Conflict z1 z2 a1 a2 b1 b2) st)"
proof -
  let ?A = "self_a m" and ?B = "self_b m"
  let ?alen = "int a2 - int a1" and ?blen = "int b2 - int b1"
  from front_loop_total[of a1 ?alen m b1 ?blen 0] r obtain s where
    fl: "front_loop m a1 b1 ?alen ?blen 0 = Inr s" by auto
  from end_loop_total[of a2 m b2 ?alen ?blen 0] r obtain e where
    el: "end_loop m a2 b2 ?alen ?blen 0 = Inr e" by auto
  from front_loop_spec[OF fl] r have s: "s \<le> a2 - a1" "s \<le> b2 - b1"
    and fr: "\<And>i. i < s \<Longrightarrow> ?A ! (a1 + i) = ?B ! (b1 + i)" by auto
  from end_loop_spec[OF el] r have e: "e \<le> a2 - a1" "e \<le> b2 - b1"
    and en: "\<And>i. i < e \<Longrightarrow> ?A ! (a2 - i - 1) = ?B ! (b2 - i - 1)" by auto
  let ?pre = "if s > 0 then [Same a1 (a1 + s)] else []"
  let ?post = "if e > 0 then [Same (a2 - e) a2] else []"
  let ?c = "Conflict z1 z2 (a1 + s) (a2 - e) (b1 + s) (b2 - e)"
  let ?P = "pyslice ?A a1 (a1 + s)" and ?Q = "pyslice ?A (a2 - e) a2"
  let ?A' = "pyslice ?A (a1 + s) (a2 - e)" and ?B' = "pyslice ?B (b1 + s) (b2 - e)"
  have mr: "minimize_region m (Conflict z1 z2 a1 a2 b1 b2) = Inr (?pre @ [?c] @ ?post)"
    using fl el by (simp add: Let_def)
  have ppre: "\<forall>r \<in> set ?pre. plain_region m r" using s r by auto
  have ppost: "\<forall>r \<in> set ?post. plain_region m r" using r by auto
  have lpre: "concat (map (region_lines m) ?pre) = ?P" by simp
  have lpost: "concat (map (region_lines m) ?post) = ?Q" by simp
  have rd: "render tw m args nl (?pre @ [?c] @ ?post) None st =
              bnd (render_region tw m args nl ?c st) (\<lambda>(out, st').
                Inr (map Line ?P @ out @ map Line ?Q, st'))"
    using render_sandwich[OF ppre ppost, of tw args nl ?c st] unfolding lpre lpost .
  have in': "a2 - e \<le> length ?A" "b2 - e \<le> length ?B" using r by auto
  from trimmed_sets[OF r s e fr en]
  have sa: "set ?P \<union> (set ?A' \<union> set ?Q) = set (pyslice ?A a1 a2)"
    and sb: "set ?P \<union> (set ?B' \<union> set ?Q) = set (pyslice ?B b1 b2)"
    by (simp_all add: Un_assoc)
  have "same_tokens (render tw m args nl (?pre @ [?c] @ ?post) None st)
          (render_region tw m args nl (Conflict z1 z2 a1 a2 b1 b2) st)"
  proof (cases "localorother args = Some ''local''")
    case True
    then show ?thesis unfolding rd using r in' sa by (simp add: yield_range_in)
  next
    case nl: False
    show ?thesis
    proof (cases "localorother args = Some ''other''")
      case True
      then show ?thesis unfolding rd using nl r in' sb by (simp add: yield_range_in)
    next
      case no: False
      show ?thesis
      proof (cases "self_wordmerge m = enforced")
        case True
        then show ?thesis unfolding rd using nl no by simp
      next
        case False
        show ?thesis
        proof (cases "if base_marker args \<noteq> None then yield_range (self_base m) z1 z2 else Inr []")
          case (Inl x)
          then show ?thesis unfolding rd using nl no False mode r in'
            by (simp add: show_conflict_in)
        next
          case (Inr bl)
          then show ?thesis unfolding rd using nl no False mode r in' sa sb
            by (simp add: show_conflict_in) blast
        qed
      qed
    qed
  qed
  with mr show ?thesis by simp
qed


lemma region_minimized:
  assumes "self_wordmerge m \<noteq> ondemand" and "conflict_in_range m r"
  shows "\<exists>regs. minimize_region m r = Inr regs \<and>
           same_tokens (render tw m args nl regs None st) (render_region tw m args nl r st)"
proof (cases r)
  case (Conflict z1 z2 a1 a2 b1 b2)
  with assms conflict_minimized[OF assms(1), of a1 a2 b1 b2 z1 z2 tw args nl st]
  show ?thesis by simp
next
  case (Unchanged lo hi)
  then show ?thesis by (cases "render_region tw m args nl r st") auto
next
  case (Same lo hi)
  then show ?thesis by (cases "render_region tw m args nl r st") auto
next
  case (TakeA lo hi)
  then show ?thesis by (cases "render_region tw m args nl r st") auto
next
  case (TakeB lo hi)
  then show ?thesis by (cases "render_region tw m args nl r st") auto
qed

lemma same_tokens_step:
  assumes "same_tokens r1 r2"
    and "\<And>st. same_tokens (k1 st) (k2 st)"
  shows "same_tokens
           (bnd r1 (\<lambda>(out, st'). bnd (k1 st') (\<lambda>(out', st''). Inr (out @ out', st''))))
           (bnd r2 (\<lambda>(out, st'). bnd (k2 st') (\<lambda>(out', st''). Inr (out @ out', st''))))"
proof (cases r1)
  case (Inl e)
  with assms(1) show ?thesis by (cases r2) auto
next
  case (Inr p1)
  obtain o1 s1 where p1: "p1 = (o1, s1)" by (cases p1)
  from Inr p1 assms(1) obtain o2 where r2: "r2 = Inr (o2, s1)"
    and so: "set (lines_of o1) = set (lines_of o2)"
    by (cases r2) auto
  show ?thesis
  proof (cases "k1 s1")
    case (Inl e)
    with assms(2)[of s1] show ?thesis using Inr p1 r2 by (cases "k2 s1") auto
  next
    case k: (Inr q1)
    obtain o1' s1' where q1: "q1 = (o1', s1')" by (cases q1)
    from k q1 assms(2)[of s1] obtain o2' where "k2 s1 = Inr (o2', s1')"
      and "set (lines_of o1') = set (lines_of o2')"
      by (cases "k2 s1") auto
    then show ?thesis using Inr p1 r2 so k q1 by simp
  qed
qed

lemma minimize_render:
  assumes "self_wordmerge m \<noteq> ondemand"
  shows "\<forall>r \<in> set rs. conflict_in_range m r \<Longrightarrow>
         snd (minimize_loop m rs stop) = stop \<and>
         same_tokens (render tw m args nl (fst (minimize_loop m rs stop)) stop st)
                     (render tw m args nl rs stop st)"
proof (induction rs arbitrary: st)
  case Nil
  then show ?case by simp
next
  case (Cons r rs)
  from Cons.prems have cr: "conflict_in_range m r"
    and rest: "\<forall>r \<in> set rs. conflict_in_range m r" by auto
  from region_minimized[OF assms cr] obtain regs where
    mr: "minimize_region m r = Inr regs"
    and st1: "\<And>st. same_tokens (render tw m args nl regs None st)
                 (render_region tw m args nl r st)"
    by (metis old.sum.inject(2))
  let ?mrs = "fst (minimize_loop m rs stop)"
  from Cons.IH[OF rest] have sn: "snd (minimize_loop m rs stop) = stop"
    and st2: "\<And>st. same_tokens (render tw m args nl ?mrs stop st) (render tw m args nl rs stop st)"
    by auto
  have ml: "minimize_loop m (r # rs) stop = (regs @ ?mrs, stop)"
    using mr sn by (simp add: yields_def)
  have "same_tokens (render tw m args nl (regs @ ?mrs) stop st) (render tw m args nl (r # rs) stop st)"
    unfolding render_append render.simps
    by (rule same_tokens_step[OF st1 st2])
  with ml show ?case by simp
qed

lemma show_conflict_args:
  assumes "start_marker args' = start_marker args" "mid_marker args' = mid_marker args"
    "end_marker args' = end_marker args" "base_marker args' = base_marker args"
  shows "show_conflict m args' nl z1 z2 a1 a2 b1 b2 st
           = show_conflict m args nl z1 z2 a1 a2 b1 b2 st"
  by (simp add: show_conflict_def assms)

lemma render_region_args:
  assumes "localorother args' = localorother args"
    "start_marker args' = start_marker args" "mid_marker args' = mid_marker args"
    "end_marker args' = end_marker args" "base_marker args' = base_marker args"
  shows "render_region tw m args' nl r st = render_region tw m args nl r st"
  by (cases r) (simp_all add: show_conflict_args[OF assms(2-5)] assms(1) cong: if_cong)

lemma render_args:
  assumes "localorother args' = localorother args"
    "start_marker args' = start_marker args" "mid_marker args' = mid_marker args"
    "end_marker args' = end_marker args" "base_marker args' = base_marker args"
  shows "render tw m args' nl rs stop st = render tw m args nl rs stop st"
  by (induction rs arbitrary: st) (simp_all add: render_region_args[OF assms])

text \<open>
  Claim C2, amended: when the word merge mode is not ondemand and the matcher answers
  with valid matching blocks, \<^verbatim>\<open>merge_lines\<close> with and without minimize (all other
  arguments identical) raise the same exception or both return, with the same set of
  non-marker tokens and the same conflict flag and count. The tokens shared at the edges
  of a conflict are yielded once by the minimized run and once per side by the other, so
  the sequences differ.
\<close>

theorem minimize_keeps_token_set:
  assumes "self_wordmerge m \<noteq> ondemand"
    and "matching_blocks_ok (self_base m) (self_a m) (amatches_of gmb m)"
    and "matching_blocks_ok (self_base m) (self_b m) (bmatches_of gmb m)"
  shows "same_tokens (merge_lines depth gmb m (args\<lparr> minimize_arg := True \<rparr>))
                     (merge_lines depth gmb m (args\<lparr> minimize_arg := False \<rparr>))"
proof -
  let ?args = "args\<lparr> start_marker := with_label (name_a args) (start_marker args),
                     end_marker := with_label (name_b args) (end_marker args),
                     base_marker := with_label (name_base args) (base_marker args) \<rparr>"
  let ?st = "\<lparr> conflicts = False, conflictscount = 0 \<rparr>"
  let ?g = "merge_regions gmb m"
  let ?tw = "trywordmerge depth gmb"
  from merge_regions_contract[OF assms(2) assms(3)]
  have rng: "\<forall>r \<in> set (fst ?g). conflict_in_range m r"
    by (auto intro: region_in_range_conflict)
  from minimize_render[OF assms(1) rng, of "snd ?g" ?tw ?args "newline_of m" ?st]
  have sn: "snd (minimize_loop m (fst ?g) (snd ?g)) = snd ?g"
    and st: "same_tokens
          (render ?tw m ?args (newline_of m) (fst (minimize_loop m (fst ?g) (snd ?g))) (snd ?g) ?st)
          (render ?tw m ?args (newline_of m) (fst ?g) (snd ?g) ?st)"
    by auto
  have 1: "merge_lines depth gmb m (args\<lparr> minimize_arg := True \<rparr>)
             = render ?tw m ?args (newline_of m) (fst (minimize_loop m (fst ?g) (snd ?g))) (snd ?g) ?st"
    unfolding merge_lines_def merge_lines_with_def Let_def minimize_def
    by (simp add: sn) (rule render_args; simp)
  have 2: "merge_lines depth gmb m (args\<lparr> minimize_arg := False \<rparr>)
             = render ?tw m ?args (newline_of m) (fst ?g) (snd ?g) ?st"
    unfolding merge_lines_def merge_lines_with_def Let_def
    by simp (rule render_args; simp)
  from st show ?thesis unfolding 1 2 .
qed

theorem minimize_keeps_token_set_witness:
  "same_tokens
     (merge_lines 1 lcs_blocks
        (Merge3Text_init ''Y\<newline>'' ''P\<newline>A\<newline>'' ''P\<newline>B\<newline>'' disabled)
        (default_args\<lparr> minimize_arg := True \<rparr>))
     (merge_lines 1 lcs_blocks
        (Merge3Text_init ''Y\<newline>'' ''P\<newline>A\<newline>'' ''P\<newline>B\<newline>'' disabled)
        (default_args\<lparr> minimize_arg := False \<rparr>))
   \<and> fst (merge_regions lcs_blocks
        (Merge3Text_init ''Y\<newline>'' ''P\<newline>A\<newline>'' ''P\<newline>B\<newline>'' disabled))
       = [Conflict 0 1 0 2 0 2]"
proof -
  let ?m = "Merge3Text_init ''Y\<newline>'' ''P\<newline>A\<newline>'' ''P\<newline>B\<newline>'' disabled"
  have 1: "self_wordmerge ?m \<noteq> ondemand" by (simp add: Merge3Text_init_def)
  have 2: "matching_blocks_ok (self_base ?m) (self_a ?m) (amatches_of lcs_blocks ?m)"
    by code_simp
  have 3: "matching_blocks_ok (self_base ?m) (self_b ?m) (bmatches_of lcs_blocks ?m)"
    by code_simp
  have 4: "fst (merge_regions lcs_blocks ?m) = [Conflict 0 1 0 2 0 2]" by code_simp
  from minimize_keeps_token_set[OF 1 2 3, of 1 default_args] 4 show ?thesis by simp
qed

text \<open>
  Claim C2, as the spec states it: with and without minimize the outputs hold the same
  non-marker tokens in the same order. For base \<^verbatim>\<open>"Y\n"\<close>, a \<^verbatim>\<open>"P\nA\n"\<close>, b \<^verbatim>\<open>"P\nB\n"\<close>
  the minimized run yields the tokens P, A, B and the other run P, A, P, B.
\<close>

theorem minimize_changes_tokens_counterexample:
  "merge_lines 1 lcs_blocks
     (Merge3Text_init ''Y\<newline>'' ''P\<newline>A\<newline>'' ''P\<newline>B\<newline>'' disabled)
     (default_args\<lparr> minimize_arg := True \<rparr>)
   = Inr ([Line ''P\<newline>'', Marker ''<<<<<<<\<newline>'', Line ''A\<newline>'', Marker ''=======\<newline>'',
           Line ''B\<newline>'', Marker ''>>>>>>>\<newline>''],
          \<lparr> conflicts = True, conflictscount = 1 \<rparr>)
   \<and> merge_lines 1 lcs_blocks
     (Merge3Text_init ''Y\<newline>'' ''P\<newline>A\<newline>'' ''P\<newline>B\<newline>'' disabled)
     (default_args\<lparr> minimize_arg := False \<rparr>)
   = Inr ([Marker ''<<<<<<<\<newline>'', Line ''P\<newline>'', Line ''A\<newline>'', Marker ''=======\<newline>'',
           Line ''P\<newline>'', Line ''B\<newline>'', Marker ''>>>>>>>\<newline>''],
          \<lparr> conflicts = True, conflictscount = 1 \<rparr>)
   \<and> lines_of [Line ''P\<newline>'', Marker ''<<<<<<<\<newline>'', Line ''A\<newline>'', Marker ''=======\<newline>'',
           Line ''B\<newline>'', Marker ''>>>>>>>\<newline>'']
     \<noteq> lines_of [Marker ''<<<<<<<\<newline>'', Line ''P\<newline>'', Line ''A\<newline>'', Marker ''=======\<newline>'',
           Line ''P\<newline>'', Line ''B\<newline>'', Marker ''>>>>>>>\<newline>'']"
  by code_simp

text \<open>
  In ondemand mode the minimized conflict is what the word merge is tried on, and it can
  succeed there while failing on the whole conflict: the tokens then differ as sets.
\<close>

lemma minimize_changes_word_merge:
  "merge_lines 1 lcs_blocks
     (Merge3Text_init ''k l\<newline>'' ''P\<newline>K l\<newline>'' ''P\<newline>k L\<newline>'' ondemand)
     (default_args\<lparr> minimize_arg := True \<rparr>)
   = Inr ([Line ''P\<newline>'', Line ''K L\<newline>''], \<lparr> conflicts = False, conflictscount = 0 \<rparr>)
   \<and> merge_lines 1 lcs_blocks
     (Merge3Text_init ''k l\<newline>'' ''P\<newline>K l\<newline>'' ''P\<newline>k L\<newline>'' ondemand)
     (default_args\<lparr> minimize_arg := False \<rparr>)
   = Inr ([Marker ''<<<<<<<\<newline>'', Line ''P\<newline>'', Line ''K l\<newline>'', Marker ''=======\<newline>'',
           Line ''P\<newline>'', Line ''k L\<newline>'', Marker ''>>>>>>>\<newline>''],
          \<lparr> conflicts = True, conflictscount = 1 \<rparr>)"
  by code_simp

section \<open>A merge without word merge returns\<close>

lemma render_region_returns:
  assumes "region_in_range m r" and "self_wordmerge m = disabled"
  shows "\<exists>res. render_region tw m args nl r st = Inr res"
proof (cases r)
  case (Conflict z1 z2 a1 a2 b1 b2)
  with assms show ?thesis by (simp add: yield_range_in show_conflict_in)
qed (use assms in \<open>simp_all add: yield_range_in\<close>)

lemma render_returns:
  assumes "self_wordmerge m = disabled"
  shows "\<forall>r \<in> set rs. region_in_range m r \<Longrightarrow> \<exists>res. render tw m args nl rs None st = Inr res"
proof (induction rs arbitrary: st)
  case Nil
  then show ?case by simp
next
  case (Cons r rs)
  from Cons.prems have "region_in_range m r" by simp
  from render_region_returns[OF this assms, of tw args nl st] obtain out st' where
    1: "render_region tw m args nl r st = Inr (out, st')" by (metis surj_pair)
  from Cons.IH[of st'] Cons.prems obtain out' st'' where
    2: "render tw m args nl rs None st' = Inr (out', st'')" by (metis list.set_intros(2) surj_pair)
  from 1 2 show ?case by simp
qed

lemma merge_lines_returns:
  assumes "self_wordmerge m = disabled"
    and "matching_blocks_ok (self_base m) (self_a m) (amatches_of gmb m)"
    and "matching_blocks_ok (self_base m) (self_b m) (bmatches_of gmb m)"
    and "\<not> minimize_arg args"
  shows "\<exists>res. merge_lines depth gmb m args = Inr res"
  using merge_regions_contract[OF assms(2) assms(3)] assms(4)
    render_returns[OF assms(1), of "fst (merge_regions gmb m)"]
  unfolding merge_lines_def merge_lines_with_def Let_def
  by simp

section \<open>The word merge in ondemand mode\<close>

text \<open>A non-empty word-merged text replaces the conflict: no marker, no count.\<close>

lemma word_merged_region:
  assumes "self_wordmerge m = ondemand"
    and "localorother args \<noteq> Some ''local''" "localorother args \<noteq> Some ''other''"
    and "tw (concat (pyslice (self_base m) z1 z2)) (concat (pyslice (self_a m) a1 a2))
            (concat (pyslice (self_b m) b1 b2)) = Inr (Some s)"
    and "s \<noteq> []"
  shows "render_region tw m args nl (Conflict z1 z2 a1 a2 b1 b2) st
           = Inr (map Line (splitlines s), st)"
  using assms by simp

text \<open>
  Claim C3: in ondemand mode a conflict region on which the word merge succeeds is
  replaced by the word-merged text, without markers and without counting a conflict.
  The code tests \<^verbatim>\<open>if text:\<close>, so a word merge that succeeds with the empty text is
  taken for a failure. For base \<^verbatim>\<open>"y\n"\<close>, a \<^verbatim>\<open>"x\n"\<close>, b \<^verbatim>\<open>"x\nx\n"\<close> with minimize, the
  minimized conflict has two empty sides, \<^verbatim>\<open>trywordmerge\<close> returns the empty text, and
  \<^verbatim>\<open>merge_lines\<close> yields the three markers and counts one conflict.
\<close>

theorem empty_word_merge_shown_as_conflict:
  "fst (minimize (Merge3Text_init ''y\<newline>'' ''x\<newline>'' ''x\<newline>x\<newline>'' ondemand)
         (merge_regions lcs_blocks
            (Merge3Text_init ''y\<newline>'' ''x\<newline>'' ''x\<newline>x\<newline>'' ondemand)))
     = [Same 0 1, Conflict 0 1 1 0 1 1, Same 0 1]
   \<and> trywordmerge 1 lcs_blocks
       (concat (pyslice (self_base (Merge3Text_init ''y\<newline>'' ''x\<newline>'' ''x\<newline>x\<newline>'' ondemand)) 0 1))
       (concat (pyslice (self_a (Merge3Text_init ''y\<newline>'' ''x\<newline>'' ''x\<newline>x\<newline>'' ondemand)) 1 0))
       (concat (pyslice (self_b (Merge3Text_init ''y\<newline>'' ''x\<newline>'' ''x\<newline>x\<newline>'' ondemand)) 1 1))
     = Inr (Some [])
   \<and> merge_lines 1 lcs_blocks
       (Merge3Text_init ''y\<newline>'' ''x\<newline>'' ''x\<newline>x\<newline>'' ondemand)
       (default_args\<lparr> minimize_arg := True \<rparr>)
     = Inr ([Line ''x\<newline>'', Marker ''<<<<<<<\<newline>'', Marker ''=======\<newline>'',
             Marker ''>>>>>>>\<newline>'', Line ''x\<newline>''],
            \<lparr> conflicts = True, conflictscount = 1 \<rparr>)"
  by code_simp

section \<open>A conflicting change\<close>

lemma blocks_chain_disjoint:
  "blocks_chain xs ys p0 q0 bs \<Longrightarrow> set xs \<inter> set ys = {} \<Longrightarrow> \<forall>b \<in> set bs. snd (snd b) = 0"
proof (induction bs arbitrary: p0 q0)
  case Nil
  then show ?case by simp
next
  case (Cons blk bs)
  obtain p q l where blk: "blk = (p, q, l)" by (cases blk)
  from Cons.prems(1) blk have v: "p + l \<le> length xs" "q + l \<le> length ys"
    "pyslice xs p (p + l) = pyslice ys q (q + l)"
    and ch: "blocks_chain xs ys (p + l) (q + l) bs" by auto
  have "l = 0"
  proof (rule ccontr)
    assume "l \<noteq> 0"
    then have "xs ! p \<in> set (pyslice xs p (p + l))" using v(1) by (simp add: set_pyslice)
    moreover have "xs ! p \<in> set xs" using v(1) \<open>l \<noteq> 0\<close> by simp
    moreover have "set (pyslice ys q (q + l)) \<subseteq> set ys"
      using v(2) by (auto simp: set_pyslice)
    ultimately show False using v(3) Cons.prems(2) by auto
  qed
  with Cons.IH[OF ch Cons.prems(2)] blk show ?case by simp
qed

lemma sync_loop_no_match:
  "\<forall>b \<in> set as. snd (snd b) = 0 \<Longrightarrow> sync_loop m as bs sl = Inr sl"
proof (induction m as bs sl rule: sync_loop.induct)
  case (3 m abase amatch alen amatches bbase bmatch blen bmatches sl)
  from "3.prems" have l: "alen = 0" and rest: "\<forall>b \<in> set amatches. snd (snd b) = 0" by auto
  have i: "intersect (abase, abase + alen) (bbase, bbase + blen) = Inr None"
    using l by (auto simp: intersect_def Let_def)
  show ?case
  proof (cases "abase + alen < bbase + blen")
    case True
    from "3.IH"(1)[OF True rest] show ?thesis using i True by simp
  next
    case False
    from "3.IH"(2)[OF False "3.prems"] show ?thesis using i False by simp
  qed
qed simp_all

text \<open>
  Claim C6: for base \<^verbatim>\<open>"one\n"\<close>, a \<^verbatim>\<open>"two\n"\<close>, b \<^verbatim>\<open>"three\n"\<close>, default markers, word
  merge disabled and no force side, \<^verbatim>\<open>merge_lines\<close> yields the start marker, \<^verbatim>\<open>"two\n"\<close>,
  the middle marker, \<^verbatim>\<open>"three\n"\<close> and the end marker, which join to the expected
  bytes, and the conflict count is 1; for every matcher that answers with valid matching
  blocks for base and a.
\<close>

theorem conflicting_change:
  assumes "m = Merge3Text_init ''one\<newline>'' ''two\<newline>'' ''three\<newline>'' disabled"
    and "matching_blocks_ok (self_base m) (self_a m) (amatches_of gmb m)"
  shows "merge_lines depth gmb m default_args
         = Inr ([Marker ''<<<<<<<\<newline>'', Line ''two\<newline>'', Marker ''=======\<newline>'',
                 Line ''three\<newline>'', Marker ''>>>>>>>\<newline>''],
                \<lparr> conflicts = True, conflictscount = 1 \<rparr>)
       \<and> joined [Marker ''<<<<<<<\<newline>'', Line ''two\<newline>'', Marker ''=======\<newline>'',
                 Line ''three\<newline>'', Marker ''>>>>>>>\<newline>'']
         = ''<<<<<<<\<newline>'' @ ''two\<newline>'' @ ''=======\<newline>'' @ ''three\<newline>'' @ ''>>>>>>>\<newline>''"
proof
  let ?M = "Merge3Text_init ''one\<newline>'' ''two\<newline>'' ''three\<newline>'' disabled"
  have toks: "self_base m = [''one\<newline>'']" "self_a m = [''two\<newline>'']"
    unfolding assms(1) by (simp_all add: Merge3Text_init_def splitnewlines_def)
  from assms(2) have "blocks_chain (self_base m) (self_a m) 0 0 (amatches_of gmb m)"
    by (simp add: matching_blocks_ok_def)
  from blocks_chain_disjoint[OF this] toks
  have "\<forall>b \<in> set (amatches_of gmb m). snd (snd b) = 0" by simp
  from sync_loop_no_match[OF this]
  have "find_sync_regions gmb m = Inr [end_sync m]" by (simp add: find_sync_regions_def)
  then have mr: "merge_regions gmb m = regions_loop ?M 0 0 0 [end_sync ?M]"
    by (simp add: merge_regions_def assms(1))
  have rl: "regions_loop ?M 0 0 0 [end_sync ?M] = ([Conflict 0 1 0 1 0 1], None)"
    by code_simp
  have rd: "render tw ?M default_args (newline_of ?M) [Conflict 0 1 0 1 0 1] None
              \<lparr> conflicts = False, conflictscount = 0 \<rparr>
            = Inr ([Marker ''<<<<<<<\<newline>'', Line ''two\<newline>'', Marker ''=======\<newline>'',
                 Line ''three\<newline>'', Marker ''>>>>>>>\<newline>''],
                \<lparr> conflicts = True, conflictscount = 1 \<rparr>)" for tw
    by code_simp
  have da: "default_args\<lparr> start_marker := with_label (name_a default_args) (start_marker default_args),
                          end_marker := with_label (name_b default_args) (end_marker default_args),
                          base_marker := with_label (name_base default_args) (base_marker default_args) \<rparr>
            = default_args"
    by (simp add: default_args_def with_label_def)
  show "merge_lines depth gmb m default_args
         = Inr ([Marker ''<<<<<<<\<newline>'', Line ''two\<newline>'', Marker ''=======\<newline>'',
                 Line ''three\<newline>'', Marker ''>>>>>>>\<newline>''],
                \<lparr> conflicts = True, conflictscount = 1 \<rparr>)"
    unfolding merge_lines_def merge_lines_with_def Let_def da mr rl
    using rd[of "trywordmerge depth gmb"]
    by (simp add: assms(1) default_args_def)
  show "joined [Marker ''<<<<<<<\<newline>'', Line ''two\<newline>'', Marker ''=======\<newline>'',
                 Line ''three\<newline>'', Marker ''>>>>>>>\<newline>'']
         = ''<<<<<<<\<newline>'' @ ''two\<newline>'' @ ''=======\<newline>'' @ ''three\<newline>'' @ ''>>>>>>>\<newline>''"
    by (simp add: joined_def)
qed

theorem conflicting_change_witness:
  "matching_blocks_ok [''one\<newline>''] [''two\<newline>''] (lcs_blocks ''one\<newline>'' ''two\<newline>'')
   \<and> merge_lines 1 lcs_blocks
       (Merge3Text_init ''one\<newline>'' ''two\<newline>'' ''three\<newline>'' disabled) default_args
     = Inr ([Marker ''<<<<<<<\<newline>'', Line ''two\<newline>'', Marker ''=======\<newline>'',
             Line ''three\<newline>'', Marker ''>>>>>>>\<newline>''],
            \<lparr> conflicts = True, conflictscount = 1 \<rparr>)"
proof -
  let ?M = "Merge3Text_init ''one\<newline>'' ''two\<newline>'' ''three\<newline>'' disabled"
  have 1: "matching_blocks_ok (self_base ?M) (self_a ?M) (amatches_of lcs_blocks ?M)"
    by code_simp
  have 2: "matching_blocks_ok [''one\<newline>''] [''two\<newline>''] (lcs_blocks ''one\<newline>'' ''two\<newline>'')"
    by code_simp
  from conflicting_change[OF refl 1, of 1] 2 show ?thesis by simp
qed

end
